theory Spec2Isabelle
  imports Main "HOL-Library.Signed_Division" "HOL-Library.Multiset"
begin

section \<open>C++ integers\<close>

text \<open>
  The programs compute with the C++ type \<open>int\<close> (32 bits, two's complement). Values are
  modelled as HOL integers; \<open>/\<close> and \<open>%\<close> of C++ truncate towards zero, which is
  \<open>sdiv\<close> and \<open>smod\<close> on \<open>int\<close>. Signed overflow is undefined behaviour in C++. Two
  operations of the source can leave the range of \<open>int\<close>: \<open>-x\<close> in the valuation loop of
  sat2sud, where the model returns \<open>None\<close>, and \<open>v -= 1\<close> in \<open>inv_varnum\<close>, which the
  decoder only calls on \<open>1..729\<close> and whose theorems exclude \<open>INT_MIN\<close>. Reading a number
  that does not fit an \<open>int\<close> fails, and narrowing a \<open>size_t\<close> keeps the low 32 bits.
\<close>

definition INT_MIN :: int where
  "INT_MIN = - 2147483648"

definition INT_MAX :: int where
  "INT_MAX = 2147483647"

definition NUM_ROWS :: int where
  "NUM_ROWS = 9"

definition NUM_COLS :: int where
  "NUM_COLS = 9"

definition NUM_DIGITS :: int where
  "NUM_DIGITS = 9"

definition NUM_VARS :: int where
  "NUM_VARS = NUM_ROWS * NUM_COLS * NUM_DIGITS"

section \<open>The variable bijection\<close>

text \<open>\<open>varnum\<close> of sud2sat (both encoders define it identically).\<close>

definition varnum :: "int \<Rightarrow> int \<Rightarrow> int \<Rightarrow> int" where
  "varnum r c d = 81 * (r - 1) + 9 * (c - 1) + d"

text \<open>
  \<open>inv_varnum\<close> of sat2sud: no range check, no failure path; the division and remainder
  are the truncating ones of C++.
\<close>

definition inv_varnum :: "int \<Rightarrow> int \<times> int \<times> int" where
  "inv_varnum v0 =
     (let v = v0 - 1;
          r = v sdiv 81 + 1;
          rem = v smod 81;
          c = rem sdiv 9 + 1;
          d = rem smod 9 + 1
      in (r, c, d))"

section \<open>Characters and decimal output\<close>

text \<open>\<open>isspace\<close> in the "C" locale (the programs never call \<open>setlocale\<close>).\<close>

definition isspace :: "char \<Rightarrow> bool" where
  "isspace ch = (of_char ch \<in> {9::nat, 10, 11, 12, 13, 32})"

definition newline :: char where
  "newline = CHR 0x0A"

definition digit_char :: "nat \<Rightarrow> char" where
  "digit_char n = char_of (48 + n)"

text \<open>\<open>operator<<\<close> on an unsigned and on a signed integer: plain decimal.\<close>

function show_nat :: "nat \<Rightarrow> string" where
  "show_nat n = (if n < 10 then [digit_char n] else show_nat (n div 10) @ [digit_char (n mod 10)])"
  by pat_completeness auto
termination
  by (relation "measure id") auto

declare show_nat.simps [simp del]

definition show_int :: "int \<Rightarrow> string" where
  "show_int i = (if i < 0 then CHR ''-'' # show_nat (nat (- i)) else show_nat (nat i))"

text \<open>
  The conversion \<open>(int)s.size()\<close> from the 64-bit \<open>size_t\<close> to \<open>int\<close> keeps the low
  32 bits, read as two's complement.
\<close>

definition int_of_size :: "nat \<Rightarrow> int" where
  "int_of_size n =
     (let m = int n mod 4294967296 in if m \<le> INT_MAX then m else m - 4294967296)"

text \<open>
  \<open>std::getline\<close> on a stream holding \<open>s\<close>: fails on an exhausted stream, otherwise
  returns the characters before the first newline and leaves what follows it.
\<close>

definition getline :: "string \<Rightarrow> (string \<times> string) option" where
  "getline s =
     (if s = [] then None
      else let line = takeWhile (\<lambda>ch. ch \<noteq> newline) s
           in Some (line, drop (Suc (length line)) s))"

text \<open>What one run of a program leaves behind: exit status, standard output, standard error.\<close>

record run =
  exit_code :: int
  out :: string
  err :: string

section \<open>The encoder sud2sat\<close>

text \<open>
  sud2sat_extended.cpp repeats \<open>varnum\<close>, the four builders of the minimal encoding,
  \<open>add_givens\<close> and \<open>read_grid\<close> of sud2sat_basic.cpp statement by statement (only the
  layout differs), so one definition stands for both files. The global \<open>clauses\<close> is
  passed through each builder; \<open>int grid[9][9]\<close> is a function of the two indices.
\<close>

type_synonym clause = "int list"

type_synonym grid = "int \<Rightarrow> int \<Rightarrow> int"

definition push_back :: "'a list \<Rightarrow> 'a \<Rightarrow> 'a list" where
  "push_back xs x = xs @ [x]"

definition add_cell_at_least_one :: "clause list \<Rightarrow> clause list" where
  "add_cell_at_least_one clauses =
     fold (\<lambda>r. fold (\<lambda>c cls.
             push_back cls (fold (\<lambda>d clause. push_back clause (varnum r c d)) [1..NUM_DIGITS] []))
           [1..NUM_COLS])
       [1..NUM_ROWS] clauses"

definition add_row_at_most_one :: "clause list \<Rightarrow> clause list" where
  "add_row_at_most_one clauses =
     fold (\<lambda>r. fold (\<lambda>d. fold (\<lambda>c1. fold (\<lambda>c2 cls.
             push_back cls [- varnum r c1 d, - varnum r c2 d])
           [c1 + 1..NUM_COLS]) [1..NUM_COLS - 1]) [1..NUM_DIGITS])
       [1..NUM_ROWS] clauses"

definition add_col_at_most_one :: "clause list \<Rightarrow> clause list" where
  "add_col_at_most_one clauses =
     fold (\<lambda>c. fold (\<lambda>d. fold (\<lambda>r1. fold (\<lambda>r2 cls.
             push_back cls [- varnum r1 c d, - varnum r2 c d])
           [r1 + 1..NUM_ROWS]) [1..NUM_ROWS - 1]) [1..NUM_DIGITS])
       [1..NUM_COLS] clauses"

text \<open>The nine cells of box \<open>(br, bc)\<close>, as both box builders list them.\<close>

definition box_cells :: "int \<Rightarrow> int \<Rightarrow> (int \<times> int) list" where
  "box_cells br bc =
     fold (\<lambda>dr. fold (\<lambda>dc cells. push_back cells (3 * br + dr + 1, 3 * bc + dc + 1)) [0..2])
       [0..2] []"

definition add_box_at_most_one :: "clause list \<Rightarrow> clause list" where
  "add_box_at_most_one clauses =
     fold (\<lambda>br. fold (\<lambda>bc.
             let cells = box_cells br bc
             in fold (\<lambda>d. fold (\<lambda>i. fold (\<lambda>j cls.
                  let r1 = fst (cells ! nat i); c1 = snd (cells ! nat i);
                      r2 = fst (cells ! nat j); c2 = snd (cells ! nat j)
                  in push_back cls [- varnum r1 c1 d, - varnum r2 c2 d])
                [i + 1..int_of_size (length cells) - 1]) [0..int_of_size (length cells) - 1])
              [1..NUM_DIGITS])
           [0..2])
       [0..2] clauses"

definition add_givens :: "grid \<Rightarrow> clause list \<Rightarrow> clause list" where
  "add_givens grid clauses =
     fold (\<lambda>r. fold (\<lambda>c cls.
             let d = grid (r - 1) (c - 1)
             in if 1 \<le> d \<and> d \<le> 9 then push_back cls [varnum r c d] else cls)
           [1..NUM_COLS])
       [1..NUM_ROWS] clauses"

text \<open>The four builders that only sud2sat_extended.cpp has.\<close>

definition add_cell_at_most_one :: "clause list \<Rightarrow> clause list" where
  "add_cell_at_most_one clauses =
     fold (\<lambda>r. fold (\<lambda>c. fold (\<lambda>d1. fold (\<lambda>d2 cls.
             push_back cls [- varnum r c d1, - varnum r c d2])
           [d1 + 1..NUM_DIGITS]) [1..NUM_DIGITS - 1]) [1..NUM_COLS])
       [1..NUM_ROWS] clauses"

definition add_row_at_least_one :: "clause list \<Rightarrow> clause list" where
  "add_row_at_least_one clauses =
     fold (\<lambda>r. fold (\<lambda>d cls.
             push_back cls (fold (\<lambda>c clause. push_back clause (varnum r c d)) [1..NUM_COLS] []))
           [1..NUM_DIGITS])
       [1..NUM_ROWS] clauses"

definition add_col_at_least_one :: "clause list \<Rightarrow> clause list" where
  "add_col_at_least_one clauses =
     fold (\<lambda>c. fold (\<lambda>d cls.
             push_back cls (fold (\<lambda>r clause. push_back clause (varnum r c d)) [1..NUM_ROWS] []))
           [1..NUM_DIGITS])
       [1..NUM_COLS] clauses"

definition add_box_at_least_one :: "clause list \<Rightarrow> clause list" where
  "add_box_at_least_one clauses =
     fold (\<lambda>br. fold (\<lambda>bc.
             let cells = box_cells br bc
             in fold (\<lambda>d cls.
                  push_back cls
                    (fold (\<lambda>cell clause. push_back clause (varnum (fst cell) (snd cell) d)) cells []))
                [1..NUM_DIGITS])
           [0..2])
       [0..2] clauses"

text \<open>
  \<open>read_grid\<close>: the first loop appends the non-blank characters of every line to \<open>all\<close>;
  the second fills the grid cell by cell and returns at the first invalid character.
\<close>

function read_all :: "string \<Rightarrow> string \<Rightarrow> string" where
  "read_all inp all =
     (case getline inp of
        None \<Rightarrow> all
      | Some (line, rest) \<Rightarrow>
          read_all rest (fold (\<lambda>ch a. if \<not> isspace ch then push_back a ch else a) line all))"
  by pat_completeness auto
termination
proof (relation "measure (\<lambda>(inp, all). length inp)")
  fix inp all :: string and x2 line rest
  assume "getline inp = Some x2" "(line, rest) = x2"
  then have "getline inp = Some (line, rest)" by simp
  then have "length rest < length inp"
    by (cases inp) (auto simp: getline_def Let_def)
  then show "((rest, fold (\<lambda>ch a. if \<not> isspace ch then push_back a ch else a) line all), inp, all)
      \<in> measure (\<lambda>(inp, all). length inp)"
    by simp
qed simp

declare read_all.simps [simp del]

text \<open>The lines of a text, as successive calls of \<open>getline\<close> return them.\<close>

function read_lines :: "string \<Rightarrow> string list" where
  "read_lines inp =
     (case getline inp of None \<Rightarrow> [] | Some (line, rest) \<Rightarrow> line # read_lines rest)"
  by pat_completeness auto
termination
proof (relation "measure length")
  fix inp :: string and x2 line rest
  assume "getline inp = Some x2" "(line, rest) = x2"
  then have "getline inp = Some (line, rest)" by simp
  then have "length rest < length inp"
    by (cases inp) (auto simp: getline_def Let_def)
  then show "(rest, inp) \<in> measure length"
    by simp
qed simp

declare read_lines.simps [simp del]

datatype input_error = WrongCount nat | InvalidChar char int

text \<open>The two accepting conditions of the cell loop: \<open>ch >= '1' && ch <= '9'\<close> and the wildcards.\<close>

definition is_clue :: "char \<Rightarrow> bool" where
  "is_clue ch = ((49::nat) \<le> of_char ch \<and> of_char ch \<le> (57::nat))"

definition is_wildcard :: "char \<Rightarrow> bool" where
  "is_wildcard ch = (ch = CHR ''0'' \<or> ch = CHR ''.'' \<or> ch = CHR ''*'' \<or> ch = CHR ''?'')"

fun read_cells :: "int list \<Rightarrow> string \<Rightarrow> grid \<Rightarrow> input_error + grid" where
  "read_cells [] all grid = Inr grid"
| "read_cells (k # ks) all grid =
     (let ch = all ! nat k; r = k sdiv 9; c = k smod 9
      in if is_clue ch
         then read_cells ks all (grid(r := (grid r)(c := int (of_char ch) - 48)))
         else if is_wildcard ch
         then read_cells ks all (grid(r := (grid r)(c := 0)))
         else Inl (InvalidChar ch k))"

definition read_grid :: "string \<Rightarrow> grid \<Rightarrow> input_error + grid" where
  "read_grid inp grid =
     (let all = read_all inp []
      in if int_of_size (length all) \<noteq> 81 then Inl (WrongCount (length all))
         else read_cells [0..80] all grid)"

text \<open>What \<open>read_grid\<close> writes to standard error before it returns false.\<close>

fun error_message :: "input_error \<Rightarrow> string" where
  "error_message (WrongCount n) =
     ''Error: expected exactly 81 non-whitespace characters, got '' @ show_nat n @ [newline]"
| "error_message (InvalidChar ch k) =
     ''Error: invalid character '' @ [CHR 0x27, ch, CHR 0x27] @ '' at position '' @ show_int k
       @ [newline]"

text \<open>The output loop at the end of both \<open>main\<close> functions.\<close>

definition print_cnf :: "clause list \<Rightarrow> string" where
  "print_cnf clauses =
     (let numClauses = int_of_size (length clauses);
          header = ''p cnf '' @ show_int NUM_VARS @ '' '' @ show_int numClauses @ [newline]
      in fold (\<lambda>cl cout. fold (\<lambda>lit cout. cout @ show_int lit @ '' '') cl cout @ ''0'' @ [newline])
           clauses header)"

definition sud2sat_basic_clauses :: "grid \<Rightarrow> clause list" where
  "sud2sat_basic_clauses grid =
     add_givens grid
       (add_box_at_most_one (add_col_at_most_one (add_row_at_most_one (add_cell_at_least_one []))))"

definition sud2sat_extended_clauses :: "grid \<Rightarrow> clause list" where
  "sud2sat_extended_clauses grid =
     add_box_at_least_one (add_col_at_least_one (add_row_at_least_one (add_cell_at_most_one
       (add_givens grid
         (add_box_at_most_one (add_col_at_most_one (add_row_at_most_one
           (add_cell_at_least_one []))))))))"

text \<open>
  \<open>main\<close> of each encoder. \<open>inp\<close> is the content of the puzzle stream (standard input, or
  the file named on the command line; a file that cannot be opened is not modelled) and
  \<open>grid0\<close> is the uninitialised array \<open>read_grid\<close> is given.
\<close>

definition sud2sat_basic :: "string \<Rightarrow> grid \<Rightarrow> run" where
  "sud2sat_basic inp grid0 =
     (case read_grid inp grid0 of
        Inl e \<Rightarrow> \<lparr>exit_code = 1, out = [], err = error_message e\<rparr>
      | Inr grid \<Rightarrow> \<lparr>exit_code = 0, out = print_cnf (sud2sat_basic_clauses grid), err = []\<rparr>)"

definition sud2sat_extended :: "string \<Rightarrow> grid \<Rightarrow> run" where
  "sud2sat_extended inp grid0 =
     (case read_grid inp grid0 of
        Inl e \<Rightarrow> \<lparr>exit_code = 1, out = [], err = error_message e\<rparr>
      | Inr grid \<Rightarrow> \<lparr>exit_code = 0, out = print_cnf (sud2sat_extended_clauses grid), err = []\<rparr>)"

section \<open>The decoder sat2sud\<close>

definition isdigit :: "char \<Rightarrow> bool" where
  "isdigit ch = (48 \<le> (of_char ch :: nat) \<and> (of_char ch :: nat) \<le> 57)"

definition digits_value :: "string \<Rightarrow> nat" where
  "digits_value ds = fold (\<lambda>ch n. 10 * n + (of_char ch - 48)) ds 0"

text \<open>
  \<open>ss >> val\<close> for an \<open>int\<close>: skip blanks, read an optional sign and the longest run of
  digits. The extraction fails (and ends the loop that calls it) when there is no digit
  or when the number does not fit an \<open>int\<close>. On success the stream is left right after
  the last digit.
\<close>

definition extract_int :: "string \<Rightarrow> (int \<times> string) option" where
  "extract_int s =
     (let s1 = dropWhile isspace s;
          neg = (s1 \<noteq> [] \<and> hd s1 = CHR ''-'');
          s2 = (if s1 \<noteq> [] \<and> (hd s1 = CHR ''-'' \<or> hd s1 = CHR ''+'') then tl s1 else s1);
          ds = takeWhile isdigit s2;
          v = (if neg then - int (digits_value ds) else int (digits_value ds))
      in if ds = [] \<or> v < INT_MIN \<or> INT_MAX < v then None
         else Some (v, dropWhile isdigit s2))"

text \<open>The loop \<open>while (ss >> val) { if (val == 0) break; ints.push_back(val); }\<close>.\<close>

function read_ints :: "string \<Rightarrow> int list \<Rightarrow> int list" where
  "read_ints ss ints =
     (case extract_int ss of
        None \<Rightarrow> ints
      | Some (val, rest) \<Rightarrow> if val = 0 then ints else read_ints rest (push_back ints val))"
  by pat_completeness auto
termination
proof (relation "measure (\<lambda>(ss, ints). length ss)")
  fix ss :: string and ints :: "int list" and x2 val rest
  assume a: "extract_int ss = Some x2" "(val, rest) = x2"
  define s1 where "s1 = dropWhile isspace ss"
  define s2 where "s2 = (if s1 \<noteq> [] \<and> (hd s1 = CHR ''-'' \<or> hd s1 = CHR ''+'') then tl s1 else s1)"
  from a have ne: "takeWhile isdigit s2 \<noteq> []" and r: "rest = dropWhile isdigit s2"
    by (auto simp: extract_int_def Let_def s1_def s2_def split: if_splits)
  have "length s2 = length (takeWhile isdigit s2) + length (dropWhile isdigit s2)"
    by (metis length_append takeWhile_dropWhile_id)
  with ne r have "length rest < length s2" by simp
  moreover have "length s2 \<le> length s1" by (simp add: s2_def)
  moreover have "length s1 \<le> length ss" by (simp add: s1_def length_dropWhile_le)
  ultimately show "((rest, push_back ints val), ss, ints) \<in> measure (\<lambda>(ss, ints). length ss)"
    by simp
qed simp

declare read_ints.simps [simp del]

text \<open>
  The valuation loop over \<open>ints\<close>. \<open>-x\<close> overflows for \<open>x = INT_MIN\<close>, which is
  undefined behaviour: the result \<open>None\<close>.
\<close>

fun set_valuation :: "int list \<Rightarrow> int list \<Rightarrow> int list option" where
  "set_valuation [] val = Some val"
| "set_valuation (x # xs) val =
     (if x > 0 \<and> x \<le> NUM_VARS then set_valuation xs (val[nat x := 1])
      else if x < 0 then
        (if x = INT_MIN then None
         else if - x \<le> NUM_VARS then set_valuation xs (val[nat (- x) := - 1])
         else set_valuation xs val)
      else set_valuation xs val)"

text \<open>The decoding loop over the variables, on a grid cleared by \<open>memset\<close>.\<close>

definition decode_grid :: "int list \<Rightarrow> grid" where
  "decode_grid val =
     fold (\<lambda>v grid.
             if val ! nat v = 1
             then (case inv_varnum v of (r, c, d) \<Rightarrow> grid(r - 1 := (grid (r - 1))(c - 1 := d)))
             else grid)
       [1..NUM_VARS] (\<lambda>r c. 0)"

definition print_grid :: "grid \<Rightarrow> string" where
  "print_grid grid =
     fold (\<lambda>r cout. fold (\<lambda>c cout. cout @ show_int (grid r c)) [0..8] cout @ [newline]) [0..8] []"

text \<open>
  \<open>main\<close> of sat2sud. \<open>inp\<close> is the content of the assignment stream (standard input or
  the file named on the command line); the result \<open>None\<close> is undefined behaviour.
\<close>

definition sat2sud :: "string \<Rightarrow> run option" where
  "sat2sud inp =
     (case getline inp of
        None \<Rightarrow> Some \<lparr>exit_code = 1, out = [], err = ''Error: empty assignment file'' @ [newline]\<rparr>
      | Some (firstLine, rest) \<Rightarrow>
          if firstLine = ''UNSAT''
          then Some \<lparr>exit_code = 1, out = [],
                      err = ''UNSAT: puzzle has no solution.'' @ [newline]\<rparr>
          else if firstLine \<noteq> ''SAT''
          then Some \<lparr>exit_code = 1, out = [],
                      err = ''Error: expected SAT or UNSAT on first line, got: '' @ firstLine
                        @ [newline]\<rparr>
          else (case getline rest of
                  None \<Rightarrow> Some \<lparr>exit_code = 1, out = [],
                                 err = ''Error: expected assignment line after SAT'' @ [newline]\<rparr>
                | Some (secondLine, rest') \<Rightarrow>
                    (case set_valuation (read_ints secondLine []) (replicate (nat (NUM_VARS + 1)) 0) of
                       None \<Rightarrow> None
                     | Some val \<Rightarrow>
                         Some \<lparr>exit_code = 0, out = print_grid (decode_grid val), err = []\<rparr>)))"

text \<open>
  Two abbreviations used in the proofs: the digit the cell loop stores for an accepted
  character, and one step of that loop.
\<close>

definition cell_digit :: "char \<Rightarrow> int" where
  "cell_digit ch = (if is_clue ch then int (of_char ch) - 48 else 0)"

definition set_cell :: "string \<Rightarrow> int \<Rightarrow> grid \<Rightarrow> grid" where
  "set_cell all k grid = grid(k sdiv 9 := (grid (k sdiv 9))(k smod 9 := cell_digit (all ! nat k)))"

text \<open>
  The answer file MiniSat writes for a satisfiable formula, which solve.sh hands to
  sat2sud: the line \<open>SAT\<close>, then one line with the literals separated by blanks and
  terminated by \<open>0\<close>.
\<close>

definition assignment_line :: "int list \<Rightarrow> string" where
  "assignment_line lits = concat (map (\<lambda>lit. show_int lit @ '' '') lits) @ ''0''"

definition sat_output :: "int list \<Rightarrow> string" where
  "sat_output lits = ''SAT'' @ [newline] @ assignment_line lits @ [newline]"

text \<open>One step of the decoding loop, named for the proofs.\<close>

definition decode_step :: "int list \<Rightarrow> int \<Rightarrow> grid \<Rightarrow> grid" where
  "decode_step val v grid =
     (if val ! nat v = 1
      then (case inv_varnum v of (r, c, d) \<Rightarrow> grid(r - 1 := (grid (r - 1))(c - 1 := d)))
      else grid)"

text \<open>A literal over the 729 variables: nonzero, of absolute value at most 729.\<close>

definition lit_ok :: "int \<Rightarrow> bool" where
  "lit_ok l = (l \<noteq> 0 \<and> - 729 \<le> l \<and> l \<le> 729)"

section \<open>Properties of the variable bijection\<close>

lemma sdiv_nonneg: "0 \<le> a \<Longrightarrow> 0 < b \<Longrightarrow> (a::int) sdiv b = a div b"
  by (simp add: signed_divide_int_def sgn_if)

lemma smod_nonneg: "0 \<le> a \<Longrightarrow> 0 < b \<Longrightarrow> (a::int) smod b = a mod b"
  by (simp add: signed_modulo_int_def sgn_if)

lemma sdiv_neg: "0 \<le> a \<Longrightarrow> 0 < b \<Longrightarrow> (- a) sdiv b = - ((a::int) div b)"
  by (simp add: signed_divide_int_def sgn_if)

lemma smod_neg: "0 \<le> a \<Longrightarrow> 0 < b \<Longrightarrow> (- a) smod b = - ((a::int) mod b)"
  by (simp add: signed_modulo_int_def sgn_if)

lemma inv_varnum_in_range:
  assumes "1 \<le> v" "v \<le> 729"
  shows "inv_varnum v =
    ((v - 1) div 81 + 1, ((v - 1) mod 81) div 9 + 1, ((v - 1) mod 81) mod 9 + 1)"
  using assms by (simp add: inv_varnum_def Let_def sdiv_nonneg smod_nonneg)

lemma varnum_bounds:
  assumes "1 \<le> r" "r \<le> 9" "1 \<le> c" "c \<le> 9" "1 \<le> d" "d \<le> 9"
  shows "1 \<le> varnum r c d" "varnum r c d \<le> 729"
  using assms by (simp_all add: varnum_def)

lemma div_mod_decomp:
  fixes q t b :: int
  assumes "0 \<le> t" "t < b"
  shows "(q * b + t) div b = q" "(q * b + t) mod b = t"
  using assms by (simp_all add: div_pos_pos_trivial mod_pos_pos_trivial)

lemma inv_varnum_varnum:
  assumes "1 \<le> r" "r \<le> 9" "1 \<le> c" "c \<le> 9" "1 \<le> d" "d \<le> 9"
  shows "inv_varnum (varnum r c d) = (r, c, d)"
proof -
  let ?v = "varnum r c d"
  let ?t = "(c - 1) * 9 + (d - 1)"
  have e: "?v - 1 = (r - 1) * 81 + ?t"
    by (simp add: varnum_def)
  have b: "0 \<le> ?t" "?t < 81" "0 \<le> d - 1" "d - 1 < 9"
    using assms by simp_all
  have q: "(?v - 1) div 81 = r - 1" and m: "(?v - 1) mod 81 = ?t"
    unfolding e using div_mod_decomp [OF b(1,2)] by blast+
  have "?t div 9 = c - 1" "?t mod 9 = d - 1"
    using div_mod_decomp [OF b(3,4)] by blast+
  with q m show ?thesis
    by (simp add: inv_varnum_in_range [OF varnum_bounds [OF assms]])
qed

lemma split81:
  fixes w :: int
  obtains q m c d where "w = 81 * q + m" "m = 9 * c + d" "0 \<le> m" "m < 81" "0 \<le> d" "d < 9"
    "q = w div 81" "m = w mod 81" "c = (w mod 81) div 9" "d = (w mod 81) mod 9"
proof
  show "w = 81 * (w div 81) + w mod 81" by simp
  show "w mod 81 = 9 * ((w mod 81) div 9) + (w mod 81) mod 9" by simp
  show "0 \<le> w mod 81" "w mod 81 < 81" "0 \<le> (w mod 81) mod 9" "(w mod 81) mod 9 < 9"
    by simp_all
qed simp_all

lemma split81_bounds:
  fixes w :: int
  assumes w: "0 \<le> w" "w < 729"
  shows "0 \<le> w div 81" "w div 81 \<le> 8" "0 \<le> (w mod 81) div 9" "(w mod 81) div 9 \<le> 8"
     "0 \<le> (w mod 81) mod 9" "(w mod 81) mod 9 \<le> 8"
proof -
  obtain q m c d where h: "w = 81 * q + m" "m = 9 * c + d" "0 \<le> m" "m < 81" "0 \<le> d" "d < 9"
    "q = w div 81" "m = w mod 81" "c = (w mod 81) div 9" "d = (w mod 81) mod 9"
    by (rule split81)
  have "0 \<le> q" "q \<le> 8" "0 \<le> c" "c \<le> 8" "0 \<le> d" "d \<le> 8"
    using w h(1-6) by linarith+
  then show "0 \<le> w div 81" "w div 81 \<le> 8" "0 \<le> (w mod 81) div 9" "(w mod 81) div 9 \<le> 8"
     "0 \<le> (w mod 81) mod 9" "(w mod 81) mod 9 \<le> 8"
    unfolding h(7,9,10) by blast+
qed

lemma split81_pos:
  fixes w :: int
  assumes w: "0 < w"
  shows "0 < (w mod 81) mod 9 \<or> 0 < (w mod 81) div 9 \<or> 0 < w div 81"
proof -
  obtain q m c d where h: "w = 81 * q + m" "m = 9 * c + d" "0 \<le> m" "m < 81" "0 \<le> d" "d < 9"
    "q = w div 81" "m = w mod 81" "c = (w mod 81) div 9" "d = (w mod 81) mod 9"
    by (rule split81)
  have "0 < d \<or> 0 < c \<or> 0 < q"
    using w h(1-6) by linarith
  then show ?thesis
    unfolding h(7,9,10) by blast
qed

lemma varnum_inv_varnum:
  assumes "1 \<le> v" "v \<le> 729"
  shows "case inv_varnum v of (r, c, d) \<Rightarrow>
    varnum r c d = v \<and> 1 \<le> r \<and> r \<le> 9 \<and> 1 \<le> c \<and> c \<le> 9 \<and> 1 \<le> d \<and> d \<le> 9"
proof -
  let ?w = "v - 1"
  have w: "0 \<le> ?w" "?w < 729" using assms by simp_all
  note b = split81_bounds [OF w]
  have "81 * (?w div 81) + (9 * ((?w mod 81) div 9) + (?w mod 81) mod 9) = ?w"
    by (simp only: mult_div_mod_eq)
  then have "varnum (?w div 81 + 1) ((?w mod 81) div 9 + 1) ((?w mod 81) mod 9 + 1) = v"
    by (simp add: varnum_def)
  then show ?thesis
    unfolding inv_varnum_in_range [OF assms] using b by simp
qed

lemma inv_varnum_above:
  assumes "729 < v"
  shows "9 < fst (inv_varnum v)"
proof -
  have "0 \<le> v - 1" using assms by simp
  then have "(v - 1) sdiv 81 = (v - 1) div 81" by (simp add: sdiv_nonneg)
  moreover have "729 div 81 \<le> (v - 1) div 81"
    by (rule zdiv_mono1) (use assms in simp_all)
  ultimately show ?thesis by (simp add: inv_varnum_def Let_def)
qed

lemma inv_varnum_neg:
  assumes "0 \<le> w"
  shows "inv_varnum (1 - w) = (1 - w div 81, 1 - (w mod 81) div 9, 1 - (w mod 81) mod 9)"
proof -
  have e: "1 - w - 1 = - w" by simp
  have m: "0 \<le> w mod 81" by simp
  show ?thesis
    unfolding inv_varnum_def Let_def e
    by (simp only: sdiv_neg [OF assms] smod_neg [OF assms] sdiv_neg [OF m] smod_neg [OF m]) simp
qed

lemma inv_varnum_below:
  assumes "v < 1"
  shows "snd (snd (inv_varnum v)) < 1 \<or> fst (snd (inv_varnum v)) < 1 \<or> fst (inv_varnum v) < 1"
proof -
  let ?w = "1 - v"
  have w: "0 < ?w" "0 \<le> ?w" "v = 1 - ?w" using assms by simp_all
  from split81_pos [OF w(1)] show ?thesis
    by (subst (1 2 3) w(3))
      (auto simp only: inv_varnum_neg [OF w(2)] fst_conv snd_conv diff_less_eq
        less_add_same_cancel1)
qed

text \<open>
  C1. Decoding the variable of a triple of \<open>[1,9]\<close> gives the triple back and the variable
  lies in \<open>[1,729]\<close>; encoding the triple decoded from a variable of \<open>[1,729]\<close> gives the
  variable back, and that triple lies in \<open>[1,9]\<close>; so \<open>varnum\<close> maps the triples one to
  one onto \<open>[1,729]\<close>.
\<close>

theorem varnum_round_trip:
  "(\<forall>r\<in>{1..9}. \<forall>c\<in>{1..9}. \<forall>d\<in>{1..9}.
      inv_varnum (varnum r c d) = (r, c, d) \<and> varnum r c d \<in> {1..729}) \<and>
   (\<forall>v\<in>{1..729}. case inv_varnum v of (r, c, d) \<Rightarrow>
      r \<in> {1..9} \<and> c \<in> {1..9} \<and> d \<in> {1..9} \<and> varnum r c d = v) \<and>
   bij_betw (\<lambda>(r, c, d). varnum r c d) ({1..9} \<times> {1..9} \<times> {1..9}) {1..729}"
proof (intro conjI ballI)
  fix r c d :: int
  assume "r \<in> {1..9}" "c \<in> {1..9}" "d \<in> {1..9}"
  then have b: "1 \<le> r" "r \<le> 9" "1 \<le> c" "c \<le> 9" "1 \<le> d" "d \<le> 9" by simp_all
  show "inv_varnum (varnum r c d) = (r, c, d)" by (rule inv_varnum_varnum [OF b])
  show "varnum r c d \<in> {1..729}" using varnum_bounds [OF b] by simp
next
  fix v :: int
  assume "v \<in> {1..729}"
  then have "1 \<le> v" "v \<le> 729" by simp_all
  from varnum_inv_varnum [OF this]
  show "case inv_varnum v of (r, c, d) \<Rightarrow>
      r \<in> {1..9} \<and> c \<in> {1..9} \<and> d \<in> {1..9} \<and> varnum r c d = v"
    by (auto split: prod.splits)
next
  show "bij_betw (\<lambda>(r, c, d). varnum r c d) ({1..9} \<times> {1..9} \<times> {1..9}) {1..729}"
  proof (rule bij_betw_byWitness [where f' = inv_varnum])
    show "\<forall>t\<in>{1..9} \<times> {1..9} \<times> {1..9}. inv_varnum (case t of (r, c, d) \<Rightarrow> varnum r c d) = t"
      by (auto simp: inv_varnum_varnum)
    show "\<forall>v\<in>{1..729}. (case inv_varnum v of (r, c, d) \<Rightarrow> varnum r c d) = v"
    proof
      fix v :: int
      assume "v \<in> {1..729}"
      then have "1 \<le> v" "v \<le> 729" by simp_all
      from varnum_inv_varnum [OF this]
      show "(case inv_varnum v of (r, c, d) \<Rightarrow> varnum r c d) = v"
        by (auto split: prod.splits)
    qed
    show "(\<lambda>(r, c, d). varnum r c d) ` ({1..9} \<times> {1..9} \<times> {1..9}) \<subseteq> {1..729}"
      using varnum_bounds by auto
    show "inv_varnum ` {1..729} \<subseteq> {1..9} \<times> {1..9} \<times> {1..9}"
    proof
      fix t
      assume "t \<in> inv_varnum ` {1..729}"
      then obtain v where v: "1 \<le> v" "v \<le> 729" "t = inv_varnum v" by auto
      from varnum_inv_varnum [OF v(1,2)] v(3)
      show "t \<in> {1..9} \<times> {1..9} \<times> {1..9}"
        by (auto split: prod.splits)
    qed
  qed
qed

theorem varnum_round_trip_witness:
  "inv_varnum (varnum 3 5 7) = (3, 5, 7) \<and> varnum 3 5 7 = 205 \<and> inv_varnum 729 = (9, 9, 9)
   \<and> varnum 9 9 9 = 729"
proof -
  have "inv_varnum (varnum 3 5 7) = (3, 5, 7)"
    using varnum_round_trip by simp
  moreover have "case inv_varnum 729 of (r, c, d) \<Rightarrow>
      r \<in> {1..9} \<and> c \<in> {1..9} \<and> d \<in> {1..9} \<and> varnum r c d = 729"
    using varnum_round_trip by simp
  then have "inv_varnum 729 = (9, 9, 9)"
    by (simp add: inv_varnum_def Let_def sdiv_nonneg smod_nonneg)
  ultimately show ?thesis
    by (simp add: varnum_def)
qed

text \<open>
  C3, as stated, fails: \<open>inv_varnum\<close> has no failure path, and on the out-of-range
  values 730 and 0 it returns the triples \<open>(10, 1, 1)\<close> and \<open>(1, 1, 0)\<close>.
\<close>

theorem inv_varnum_no_failure_counterexample:
  "inv_varnum 730 = (10, 1, 1) \<and> inv_varnum 0 = (1, 1, 0)"
  by (simp add: inv_varnum_def Let_def signed_divide_int_def signed_modulo_int_def)

text \<open>
  C3, amended. For every \<open>int\<close> value outside \<open>[1,729]\<close> on which \<open>v -= 1\<close> does not
  overflow, \<open>inv_varnum\<close> returns a triple, and that triple is never a valid one: its row,
  its column or its digit lies outside \<open>[1,9]\<close>.
\<close>

theorem inv_varnum_out_of_range:
  assumes "INT_MIN < v" "v \<le> INT_MAX" "v < 1 \<or> 729 < v"
  shows "case inv_varnum v of (r, c, d) \<Rightarrow> \<not> (r \<in> {1..9} \<and> c \<in> {1..9} \<and> d \<in> {1..9})"
proof (cases "729 < v")
  case True
  from inv_varnum_above [OF this] show ?thesis
    by (auto split: prod.splits)
next
  case False
  with assms(3) have "v < 1" by simp
  from inv_varnum_below [OF this] show ?thesis
    by (auto split: prod.splits)
qed

theorem inv_varnum_out_of_range_witness:
  "INT_MIN < 730 \<and> 730 \<le> INT_MAX \<and> 729 < (730::int) \<and> inv_varnum 730 = (10, 1, 1)
   \<and> (10::int) \<notin> {1..9}"
proof -
  have h: "INT_MIN < 730" "730 \<le> INT_MAX" "(730::int) < 1 \<or> 729 < (730::int)"
    by (simp_all add: INT_MIN_def INT_MAX_def)
  have e: "inv_varnum 730 = (10, 1, 1)"
    by (simp add: inv_varnum_def Let_def signed_divide_int_def signed_modulo_int_def)
  from inv_varnum_out_of_range [OF h] e h(1,2) show ?thesis
    by simp
qed

section \<open>The clause builders in closed form\<close>

lemma fold_append_concat: "fold (\<lambda>x acc. acc @ h x) xs = (\<lambda>acc. acc @ concat (map h xs))"
proof
  fix acc show "fold (\<lambda>x acc. acc @ h x) xs acc = acc @ concat (map h xs)"
    by (induction xs arbitrary: acc) simp_all
qed

lemma fold_push_back: "fold (\<lambda>x acc. push_back acc (f x)) xs = (\<lambda>acc. acc @ map f xs)"
proof
  fix acc show "fold (\<lambda>x acc. push_back acc (f x)) xs acc = acc @ map f xs"
    by (induction xs arbitrary: acc) (simp_all add: push_back_def)
qed

lemma if_push_back: "(if b then push_back acc x else acc) = acc @ (if b then [x] else [])"
  by (simp add: push_back_def)

lemmas loop_bounds = NUM_ROWS_def NUM_COLS_def NUM_DIGITS_def

lemmas loop_closed = fold_push_back fold_append_concat if_push_back append_Nil Let_def

lemma upto_lists:
  "[1..9] = [1,2,3,4,5,6,7,8,9::int]" "[1..8] = [1,2,3,4,5,6,7,8::int]" "[0..2] = [0,1,2::int]"
  "[0..8] = [0,1,2,3,4,5,6,7,8::int]"
  by (simp_all add: upto.simps)

lemma add_cell_at_least_one_closed:
  "add_cell_at_least_one cls =
     cls @ concat (map (\<lambda>r. map (\<lambda>c. map (\<lambda>d. varnum r c d) [1..9]) [1..9]) [1..9])"
  unfolding add_cell_at_least_one_def loop_bounds
  by (simp only: loop_closed)

lemma add_row_at_most_one_closed:
  "add_row_at_most_one cls =
     cls @ concat (map (\<lambda>r. concat (map (\<lambda>d. concat (map (\<lambda>c1.
        map (\<lambda>c2. [- varnum r c1 d, - varnum r c2 d]) [c1 + 1..9]) [1..9 - 1])) [1..9])) [1..9])"
  unfolding add_row_at_most_one_def loop_bounds
  by (simp only: loop_closed)

lemma add_col_at_most_one_closed:
  "add_col_at_most_one cls =
     cls @ concat (map (\<lambda>c. concat (map (\<lambda>d. concat (map (\<lambda>r1.
        map (\<lambda>r2. [- varnum r1 c d, - varnum r2 c d]) [r1 + 1..9]) [1..9 - 1])) [1..9])) [1..9])"
  unfolding add_col_at_most_one_def loop_bounds
  by (simp only: loop_closed)

lemma box_cells_closed:
  "box_cells br bc = concat (map (\<lambda>dr. map (\<lambda>dc. (3 * br + dr + 1, 3 * bc + dc + 1)) [0..2]) [0..2])"
  unfolding box_cells_def
  by (simp only: loop_closed)

lemma length_box_cells: "length (box_cells br bc) = 9"
  by (simp add: box_cells_closed upto_lists)

lemma int_of_size_small: "n < 2147483648 \<Longrightarrow> int_of_size n = int n"
  by (simp add: int_of_size_def INT_MAX_def)

lemma add_box_at_most_one_closed:
  "add_box_at_most_one cls =
     cls @ concat (map (\<lambda>br. concat (map (\<lambda>bc. concat (map (\<lambda>d. concat (map (\<lambda>i.
        map (\<lambda>j. [- varnum (fst (box_cells br bc ! nat i)) (snd (box_cells br bc ! nat i)) d,
                    - varnum (fst (box_cells br bc ! nat j)) (snd (box_cells br bc ! nat j)) d])
          [i + 1..8]) [0..8])) [1..9])) [0..2])) [0..2])"
  unfolding add_box_at_most_one_def loop_bounds
  by (simp only: loop_closed length_box_cells int_of_size_small) simp

lemma add_givens_closed:
  "add_givens grid cls =
     cls @ concat (map (\<lambda>r. concat (map (\<lambda>c.
        if 1 \<le> grid (r - 1) (c - 1) \<and> grid (r - 1) (c - 1) \<le> 9
        then [[varnum r c (grid (r - 1) (c - 1))]] else []) [1..9])) [1..9])"
  unfolding add_givens_def loop_bounds
  by (simp only: loop_closed)

lemma length_concat_const:
  assumes "\<And>x. length (h x) = k"
  shows "length (concat (map h xs)) = length xs * k"
  using assms by (induction xs) simp_all

lemma length_pairs_1_9: "length (concat (map (\<lambda>i. map (g i) [i + 1..9]) [1..9 - 1])) = 36"
  by (simp add: length_concat upto_lists comp_def)

lemma length_pairs_0_8: "length (concat (map (\<lambda>i. map (g i) [i + 1..8]) [0..8])) = 36"
  by (simp add: length_concat upto_lists comp_def)

lemma length_add_cell_at_least_one: "length (add_cell_at_least_one cls) = length cls + 81"
  by (simp add: add_cell_at_least_one_closed length_concat_const [where k = 9])

lemma length_add_row_at_most_one: "length (add_row_at_most_one cls) = length cls + 2916"
  by (simp only: add_row_at_most_one_closed length_append length_pairs_1_9
      length_concat_const [where k = 36] length_concat_const [where k = "9 * 36"] length_upto)

lemma length_add_col_at_most_one: "length (add_col_at_most_one cls) = length cls + 2916"
  by (simp only: add_col_at_most_one_closed length_append length_pairs_1_9
      length_concat_const [where k = 36] length_concat_const [where k = "9 * 36"] length_upto)

lemma length_add_box_at_most_one: "length (add_box_at_most_one cls) = length cls + 2916"
  by (simp only: add_box_at_most_one_closed length_append length_pairs_0_8
      length_concat_const [where k = 36] length_concat_const [where k = "9 * 36"]
      length_concat_const [where k = "3 * (9 * 36)"] length_upto)

section \<open>Reading the puzzle\<close>

lemma isspace_newline: "isspace newline"
  by (simp add: isspace_def newline_def)

lemma fold_keep: "fold (\<lambda>ch a. if \<not> isspace ch then push_back a ch else a) line acc
    = acc @ filter (\<lambda>ch. \<not> isspace ch) line"
  by (induction line arbitrary: acc) (simp_all add: push_back_def)

lemma getline_filter:
  assumes "getline s = Some (line, rest)"
  shows "filter (\<lambda>ch. \<not> isspace ch) s
    = filter (\<lambda>ch. \<not> isspace ch) line @ filter (\<lambda>ch. \<not> isspace ch) rest"
proof -
  let ?p = "\<lambda>ch. ch \<noteq> newline"
  from assms have l: "line = takeWhile ?p s" and r: "rest = drop (Suc (length line)) s"
    by (auto simp: getline_def Let_def split: if_splits)
  have s: "s = line @ dropWhile ?p s" by (simp add: l)
  show ?thesis
  proof (cases "dropWhile ?p s")
    case Nil
    with s have "s = line" by simp
    with r show ?thesis by simp
  next
    case (Cons x xs)
    then have "x = newline" using hd_dropWhile [of ?p s] by force
    moreover have "rest = xs" 
      using r Cons s by (metis append_eq_conv_conj drop_Suc drop_drop list.sel(3) plus_1_eq_Suc tl_drop)
    ultimately show ?thesis
      using s Cons isspace_newline by (metis filter.simps(2) filter_append)
  qed
qed

lemma read_all_filter: "read_all inp acc = acc @ filter (\<lambda>ch. \<not> isspace ch) inp"
proof (induction inp acc rule: read_all.induct)
  case (1 inp all)
  show ?case
  proof (cases "getline inp")
    case None
    then have "inp = []" by (simp add: getline_def Let_def split: if_splits)
    with None show ?thesis by (subst read_all.simps) simp
  next
    case (Some p)
    obtain line rest where p: "p = (line, rest)" by (cases p)
    from "1.IH" [OF Some [unfolded p] refl] getline_filter [OF Some [unfolded p]]
    show ?thesis
      by (subst read_all.simps) (simp add: Some p fold_keep)
  qed
qed

lemma read_cells_find:
  "read_cells ks all grid =
     (case find (\<lambda>k. \<not> is_clue (all ! nat k) \<and> \<not> is_wildcard (all ! nat k)) ks of
        Some k \<Rightarrow> Inl (InvalidChar (all ! nat k) k)
      | None \<Rightarrow> Inr (fold (set_cell all) ks grid))"
  by (induction ks arbitrary: grid)
    (auto simp: Let_def set_cell_def cell_digit_def split: option.splits)

lemma add_cell_at_most_one_closed:
  "add_cell_at_most_one cls =
     cls @ concat (map (\<lambda>r. concat (map (\<lambda>c. concat (map (\<lambda>d1.
        map (\<lambda>d2. [- varnum r c d1, - varnum r c d2]) [d1 + 1..9]) [1..9 - 1])) [1..9])) [1..9])"
  unfolding add_cell_at_most_one_def loop_bounds
  by (simp only: loop_closed)

lemma add_row_at_least_one_closed:
  "add_row_at_least_one cls =
     cls @ concat (map (\<lambda>r. map (\<lambda>d. map (\<lambda>c. varnum r c d) [1..9]) [1..9]) [1..9])"
  unfolding add_row_at_least_one_def loop_bounds
  by (simp only: loop_closed)

lemma add_col_at_least_one_closed:
  "add_col_at_least_one cls =
     cls @ concat (map (\<lambda>c. map (\<lambda>d. map (\<lambda>r. varnum r c d) [1..9]) [1..9]) [1..9])"
  unfolding add_col_at_least_one_def loop_bounds
  by (simp only: loop_closed)

lemma add_box_at_least_one_closed:
  "add_box_at_least_one cls =
     cls @ concat (map (\<lambda>br. concat (map (\<lambda>bc.
        map (\<lambda>d. map (\<lambda>cell. varnum (fst cell) (snd cell) d) (box_cells br bc)) [1..9])
          [0..2])) [0..2])"
  unfolding add_box_at_least_one_def loop_bounds
  by (simp only: loop_closed)

lemma length_add_cell_at_most_one: "length (add_cell_at_most_one cls) = length cls + 2916"
  by (simp only: add_cell_at_most_one_closed length_append length_pairs_1_9
      length_concat_const [where k = 36] length_concat_const [where k = "9 * 36"] length_upto)

lemma length_add_row_at_least_one: "length (add_row_at_least_one cls) = length cls + 81"
  by (simp add: add_row_at_least_one_closed length_concat_const [where k = 9])

lemma length_add_col_at_least_one: "length (add_col_at_least_one cls) = length cls + 81"
  by (simp add: add_col_at_least_one_closed length_concat_const [where k = 9])

lemma length_add_box_at_least_one: "length (add_box_at_least_one cls) = length cls + 81"
  by (simp add: add_box_at_least_one_closed length_concat_const [where k = 9]
      length_concat_const [where k = 27])

text \<open>The grid that the cell loop leaves.\<close>

lemma sdiv_smod_9:
  assumes "0 \<le> (k::int)"
  shows "k sdiv 9 = k div 9" "k smod 9 = k mod 9"
  using assms by (simp_all add: sdiv_nonneg smod_nonneg)

lemma set_cell_other:
  assumes "0 \<le> k" "k \<noteq> 9 * r + c" "0 \<le> c" "c < 9"
  shows "set_cell all k grid r c = grid r c"
proof -
  have "\<not> (k div 9 = r \<and> k mod 9 = c)"
    using assms(2) by (metis mult_div_mod_eq)
  then show ?thesis
    by (auto simp: set_cell_def sdiv_smod_9 [OF assms(1)])
qed

lemma set_cell_same:
  assumes "0 \<le> c" "c < 9" "0 \<le> r"
  shows "set_cell all (9 * r + c) grid r c = cell_digit (all ! nat (9 * r + c))"
proof -
  have k: "0 \<le> 9 * r + c" using assms by simp
  have "(9 * r + c) div 9 = r" "(9 * r + c) mod 9 = c"
    using div_mod_decomp [OF assms(1,2), of r] by (simp_all add: mult.commute)
  then show ?thesis
    by (simp add: set_cell_def sdiv_smod_9 [OF k])
qed

lemma fold_set_cell_other:
  assumes "\<forall>k\<in>set ks. 0 \<le> k \<and> k \<noteq> 9 * r + c" "0 \<le> c" "c < 9"
  shows "fold (set_cell all) ks grid r c = grid r c"
  using assms by (induction ks arbitrary: grid) (simp_all add: set_cell_other)

lemma fold_set_cell_lookup:
  assumes "distinct ks" "\<forall>k\<in>set ks. 0 \<le> k" "9 * r + c \<in> set ks" "0 \<le> c" "c < 9" "0 \<le> r"
  shows "fold (set_cell all) ks grid r c = cell_digit (all ! nat (9 * r + c))"
  using assms
proof (induction ks arbitrary: grid)
  case Nil
  then show ?case by simp
next
  case (Cons k ks)
  show ?case
  proof (cases "k = 9 * r + c")
    case True
    with Cons.prems have "\<forall>k\<in>set ks. 0 \<le> k \<and> k \<noteq> 9 * r + c" by auto
    from fold_set_cell_other [OF this Cons.prems(4,5)] show ?thesis
      by (simp add: True set_cell_same Cons.prems)
  next
    case False
    with Cons show ?thesis by simp
  qed
qed

lemma grid_after_read:
  assumes "0 \<le> r" "r \<le> 8" "0 \<le> c" "c \<le> 8"
  shows "fold (set_cell all) [0..80] grid r c = cell_digit (all ! nat (9 * r + c))"
proof (rule fold_set_cell_lookup)
  show "9 * r + c \<in> set [0..80]" using assms by simp
qed (use assms in simp_all)

lemma concat_rows:
  "concat (map (\<lambda>r. map (\<lambda>c. f (9 * (r - 1) + (c - 1))) [1..9]) [1..9]) = map f [0..80]"
  by (simp add: upto.simps)

lemma upto_0_80: "[0..80] = map int [0..<81]"
  by (simp add: upto.simps upt_rec)

lemma nths_all:
  assumes "length all = 81"
  shows "map (\<lambda>k. all ! nat k) [0..80] = all"
proof -
  have "map (\<lambda>k. all ! nat k) [0..80] = map (\<lambda>i. all ! i) [0..<length all]"
    by (simp only: upto_0_80 assms map_map comp_def nat_int)
  then show ?thesis by (simp only: map_nth)
qed

lemma length_concat_concat:
  "length (concat (map (\<lambda>r. concat (map (F r) cs)) rs))
    = sum_list (concat (map (\<lambda>r. map (\<lambda>c. length (F r c)) cs) rs))"
  by (induction rs) (simp_all add: length_concat comp_def)

lemma sum_list_of_bool: "sum_list (map (\<lambda>x. if P x then 1 else 0) xs) = length (filter P xs)"
  by (induction xs) simp_all

lemma cell_digit_clue: "1 \<le> cell_digit ch \<and> cell_digit ch \<le> 9 \<longleftrightarrow> is_clue ch"
proof -
  have "of_char ch < (256::nat)" by simp
  then show ?thesis
    by (auto simp: cell_digit_def is_clue_def)
qed

lemma length_add_givens:
  assumes "length all = 81"
  shows "length (add_givens (fold (set_cell all) [0..80] grid0) cls)
    = length cls + length (filter is_clue all)"
proof -
  let ?g = "fold (set_cell all) [0..80] grid0"
  let ?f = "\<lambda>k. if is_clue (all ! nat k) then 1 else (0::nat)"
  have cell: "length (if 1 \<le> ?g (r - 1) (c - 1) \<and> ?g (r - 1) (c - 1) \<le> 9
        then [[varnum r c (?g (r - 1) (c - 1))]] else []) = ?f (9 * (r - 1) + (c - 1))"
    if "r \<in> set [1..9]" "c \<in> set [1..9]" for r c
  proof -
    from that have "0 \<le> r - 1" "r - 1 \<le> 8" "0 \<le> c - 1" "c - 1 \<le> 8" by simp_all
    from grid_after_read [OF this] show ?thesis
      by (simp add: cell_digit_clue)
  qed
  have rows: "map (\<lambda>r. map (\<lambda>c. length (if 1 \<le> ?g (r - 1) (c - 1) \<and> ?g (r - 1) (c - 1) \<le> 9
        then [[varnum r c (?g (r - 1) (c - 1))]] else [])) [1..9]) [1..9]
      = map (\<lambda>r. map (\<lambda>c. ?f (9 * (r - 1) + (c - 1))) [1..9]) [1..9]"
  proof (rule map_cong [OF refl], rule map_cong [OF refl])
    fix r c :: int
    assume "r \<in> set [1..9]" "c \<in> set [1..9]"
    then show "length (if 1 \<le> ?g (r - 1) (c - 1) \<and> ?g (r - 1) (c - 1) \<le> 9
        then [[varnum r c (?g (r - 1) (c - 1))]] else []) = ?f (9 * (r - 1) + (c - 1))"
      by (rule cell)
  qed
  have "length (add_givens ?g cls) = length cls +
      sum_list (concat (map (\<lambda>r. map (\<lambda>c. ?f (9 * (r - 1) + (c - 1))) [1..9]) [1..9]))"
    unfolding add_givens_closed length_append length_concat_concat
    by (simp only: rows)
  also have "\<dots> = length cls + sum_list (map ?f [0..80])"
    by (simp only: concat_rows [of ?f])
  also have "\<dots> = length cls + length (filter is_clue (map (\<lambda>k. all ! nat k) [0..80]))"
    by (simp only: sum_list_of_bool filter_map length_map comp_def)
  finally show ?thesis
    by (simp only: nths_all [OF assms])
qed

section \<open>Clause counts\<close>

lemma read_grid_closed:
  "read_grid inp grid0 =
     (let all = filter (\<lambda>ch. \<not> isspace ch) inp
      in if int_of_size (length all) \<noteq> 81 then Inl (WrongCount (length all))
         else case find (\<lambda>k. \<not> is_clue (all ! nat k) \<and> \<not> is_wildcard (all ! nat k)) [0..80] of
                Some k \<Rightarrow> Inl (InvalidChar (all ! nat k) k)
              | None \<Rightarrow> Inr (fold (set_cell all) [0..80] grid0))"
  by (simp only: read_grid_def read_all_filter read_cells_find append_Nil)

lemma read_grid_well_formed:
  assumes "length (filter (\<lambda>ch. \<not> isspace ch) inp) = 81"
    and "\<forall>ch\<in>set (filter (\<lambda>ch. \<not> isspace ch) inp). is_clue ch \<or> is_wildcard ch"
  shows "read_grid inp grid0 = Inr (fold (set_cell (filter (\<lambda>ch. \<not> isspace ch) inp)) [0..80] grid0)"
proof -
  let ?all = "filter (\<lambda>ch. \<not> isspace ch) inp"
  have "?all ! nat k \<in> set ?all" if "k \<in> set [0..80]" for k
    using that assms(1) by (intro nth_mem) (auto simp: nat_less_iff)
  with assms(2) have "find (\<lambda>k. \<not> is_clue (?all ! nat k) \<and> \<not> is_wildcard (?all ! nat k)) [0..80] = None"
    unfolding find_None_iff by blast
  then show ?thesis
    by (simp add: read_grid_closed assms(1) int_of_size_small Let_def)
qed

lemma length_basic_clauses:
  "length (sud2sat_basic_clauses grid) = 81 + 2916 * 3 + length (add_givens grid [])"
proof -
  have "length (add_givens grid cls) = length cls + length (add_givens grid [])" for cls
    by (simp add: add_givens_closed)
  then have "length (sud2sat_basic_clauses grid)
      = length (add_box_at_most_one (add_col_at_most_one (add_row_at_most_one
          (add_cell_at_least_one [])))) + length (add_givens grid [])"
    unfolding sud2sat_basic_clauses_def by blast
  then show ?thesis
    by (simp add: length_add_cell_at_least_one
        length_add_row_at_most_one length_add_col_at_most_one length_add_box_at_most_one)
qed

lemma extended_clauses_split:
  "sud2sat_extended_clauses grid =
     sud2sat_basic_clauses grid @ add_cell_at_most_one [] @ add_row_at_least_one []
       @ add_col_at_least_one [] @ add_box_at_least_one []"
  unfolding sud2sat_extended_clauses_def sud2sat_basic_clauses_def
  by (subst add_box_at_least_one_closed, subst add_col_at_least_one_closed,
      subst add_row_at_least_one_closed, subst add_cell_at_most_one_closed)
    (simp add: add_box_at_least_one_closed add_col_at_least_one_closed
      add_row_at_least_one_closed add_cell_at_most_one_closed)

lemma basic_clauses_split:
  "sud2sat_basic_clauses grid =
     add_cell_at_least_one [] @ add_row_at_most_one [] @ add_col_at_most_one []
       @ add_box_at_most_one [] @ add_givens grid []"
  unfolding sud2sat_basic_clauses_def
  by (simp add: add_givens_closed add_box_at_most_one_closed add_col_at_most_one_closed
      add_row_at_most_one_closed add_cell_at_least_one_closed)

lemma length_extended_clauses:
  "length (sud2sat_extended_clauses grid) = length (sud2sat_basic_clauses grid) + 2916 + 81 * 3"
  by (simp add: extended_clauses_split length_add_cell_at_most_one length_add_row_at_least_one
      length_add_col_at_least_one length_add_box_at_least_one)

section \<open>The extended encoding extends the minimal one\<close>

text \<open>
  C10. For a grid read from a puzzle, the two encoders print the clause lists built from
  it; the minimal list is cell-at-least-one, row, column and box at-most-one, then the
  unit clauses of the givens, and the extended list is the minimal list followed by
  cell-at-most-one and row, column and box at-least-one, so cutting the extended list
  after the length of the minimal one gives the minimal list back.
\<close>

theorem extended_has_basic_prefix:
  assumes "read_grid inp grid0 = Inr grid"
  shows "out (sud2sat_basic inp grid0) = print_cnf (sud2sat_basic_clauses grid) \<and>
    out (sud2sat_extended inp grid0) = print_cnf (sud2sat_extended_clauses grid) \<and>
    sud2sat_basic_clauses grid =
      add_cell_at_least_one [] @ add_row_at_most_one [] @ add_col_at_most_one []
        @ add_box_at_most_one [] @ add_givens grid [] \<and>
    sud2sat_extended_clauses grid =
      sud2sat_basic_clauses grid @ add_cell_at_most_one [] @ add_row_at_least_one []
        @ add_col_at_least_one [] @ add_box_at_least_one [] \<and>
    take (length (sud2sat_basic_clauses grid)) (sud2sat_extended_clauses grid)
      = sud2sat_basic_clauses grid"
proof -
  have "take (length (sud2sat_basic_clauses grid)) (sud2sat_extended_clauses grid)
      = sud2sat_basic_clauses grid"
    by (subst extended_clauses_split) simp
  moreover note basic_clauses_split [of grid] extended_clauses_split [of grid]
  ultimately show ?thesis
    using assms by (simp add: sud2sat_basic_def sud2sat_extended_def)
qed

theorem extended_has_basic_prefix_witness:
  "\<exists>grid. read_grid ''530070000600195000098000060800060003400803001700020006060000280000419005000080079'' (\<lambda>r c. 0) = Inr grid \<and>
    take (length (sud2sat_basic_clauses grid)) (sud2sat_extended_clauses grid)
      = sud2sat_basic_clauses grid \<and>
    sud2sat_extended_clauses grid =
      sud2sat_basic_clauses grid @ add_cell_at_most_one [] @ add_row_at_least_one []
        @ add_col_at_least_one [] @ add_box_at_least_one []"
proof -
  let ?inp = "''530070000600195000098000060800060003400803001700020006060000280000419005000080079''"
  have h1: "length (filter (\<lambda>ch. \<not> isspace ch) ?inp) = 81"
    by (simp add: isspace_def)
  have h2: "\<forall>ch\<in>set (filter (\<lambda>ch. \<not> isspace ch) ?inp). is_clue ch \<or> is_wildcard ch"
    by (simp add: isspace_def is_clue_def is_wildcard_def)
  note r = read_grid_well_formed [OF h1 h2, of "\<lambda>r c. 0"]
  from extended_has_basic_prefix [OF r] r show ?thesis
    by blast
qed

section \<open>Printing and reading decimal numbers\<close>

lemma isdigit_digit_char: "n < 10 \<Longrightarrow> isdigit (digit_char n)"
  by (simp add: isdigit_def digit_char_def)

lemma value_digit_char: "n < 10 \<Longrightarrow> of_char (digit_char n) - 48 = n"
  by (simp add: digit_char_def)

lemma show_nat_digits: "\<forall>ch\<in>set (show_nat n). isdigit ch"
proof (induction n rule: show_nat.induct)
  case (1 n)
  show ?case
  proof (cases "n < 10")
    case True
    then show ?thesis by (subst show_nat.simps) (simp add: isdigit_digit_char)
  next
    case False
    with "1.IH" show ?thesis by (subst show_nat.simps) (simp add: isdigit_digit_char)
  qed
qed

lemma show_nat_nonempty: "show_nat n \<noteq> []"
  by (subst show_nat.simps) simp

lemma digits_value_snoc: "digits_value (ds @ [ch]) = 10 * digits_value ds + (of_char ch - 48)"
  by (simp add: digits_value_def)

lemma digits_value_show_nat: "digits_value (show_nat n) = n"
proof (induction n rule: show_nat.induct)
  case (1 n)
  show ?case
  proof (cases "n < 10")
    case True
    then show ?thesis
      by (subst show_nat.simps) (simp add: digits_value_def value_digit_char)
  next
    case False
    with "1.IH" show ?thesis
      by (subst show_nat.simps) (simp add: digits_value_snoc value_digit_char)
  qed
qed

lemma not_isdigit_misc: "\<not> isdigit CHR '' ''" "\<not> isdigit CHR ''-''" "\<not> isdigit newline"
  "\<not> isspace CHR ''-''" "isspace CHR '' ''" "isdigit CHR ''0''"
  by (simp_all add: isdigit_def isspace_def newline_def)

lemma isdigit_not_isspace: "isdigit ch \<Longrightarrow> \<not> isspace ch"
  by (auto simp: isdigit_def isspace_def)

lemma isdigit_neq: "isdigit ch \<Longrightarrow> ch \<noteq> CHR ''-'' \<and> ch \<noteq> CHR ''+'' \<and> ch \<noteq> newline"
  by (auto simp: isdigit_def newline_def)

lemma takeWhile_digits:
  assumes "\<forall>ch\<in>set ds. isdigit ch" "rest = [] \<or> \<not> isdigit (hd rest)"
  shows "takeWhile isdigit (ds @ rest) = ds" "dropWhile isdigit (ds @ rest) = rest"
  using assms by (cases rest; simp add: takeWhile_append2 dropWhile_append2)+

lemma extract_int_show_nat:
  assumes "int n \<le> INT_MAX" "rest = [] \<or> \<not> isdigit (hd rest)"
  shows "extract_int (show_nat n @ rest) = Some (int n, rest)"
proof -
  obtain d ds where s: "show_nat n = d # ds"
    using show_nat_nonempty [of n] by (cases "show_nat n") auto
  have dig: "\<forall>ch\<in>set (show_nat n). isdigit ch" by (rule show_nat_digits)
  then have d: "isdigit d" by (simp add: s)
  have sp: "dropWhile isspace (show_nat n @ rest) = show_nat n @ rest"
    using isdigit_not_isspace [OF d] by (simp add: s)
  have hd: "hd (show_nat n @ rest) = d" "show_nat n @ rest \<noteq> []" by (simp_all add: s)
  have v: "INT_MIN \<le> int n" by (simp add: INT_MIN_def)
  show ?thesis
    unfolding extract_int_def sp Let_def hd
    using isdigit_neq [OF d] assms(1) v
    by (simp add: takeWhile_digits [OF dig assms(2)] digits_value_show_nat show_nat_nonempty)
qed

lemma extract_int_show_neg:
  assumes "0 < n" "INT_MIN \<le> - int n" "rest = [] \<or> \<not> isdigit (hd rest)"
  shows "extract_int (CHR ''-'' # show_nat n @ rest) = Some (- int n, rest)"
proof -
  have dig: "\<forall>ch\<in>set (show_nat n). isdigit ch" by (rule show_nat_digits)
  have v: "- int n \<le> INT_MAX" by (simp add: INT_MAX_def)
  show ?thesis
    unfolding extract_int_def Let_def
    using assms(2) v
    by (simp add: not_isdigit_misc takeWhile_digits [OF dig assms(3)] digits_value_show_nat
        show_nat_nonempty)
qed

lemma extract_int_show_int:
  assumes "INT_MIN \<le> v" "v \<le> INT_MAX" "rest = [] \<or> \<not> isdigit (hd rest)"
  shows "extract_int (show_int v @ rest) = Some (v, rest)"
proof (cases "v < 0")
  case True
  then have "0 < nat (- v)" "INT_MIN \<le> - int (nat (- v))" using assms(1) by simp_all
  from extract_int_show_neg [OF this assms(3)] True show ?thesis
    by (simp add: show_int_def)
next
  case False
  then have "int (nat v) \<le> INT_MAX" using assms(2) by simp
  from extract_int_show_nat [OF this assms(3)] False show ?thesis
    by (simp add: show_int_def)
qed

text \<open>One clause line, as the output loop prints it before the newline.\<close>

lemma extract_int_zero: "extract_int (CHR '' '' # ''0'') = Some (0, [])" "extract_int ''0'' = Some (0, [])"
  by (simp_all add: extract_int_def Let_def isspace_def isdigit_def digits_value_def INT_MIN_def INT_MAX_def)

lemma read_ints_clause_line:
  assumes "\<forall>l\<in>set cl. l \<noteq> 0 \<and> INT_MIN \<le> l \<and> l \<le> INT_MAX"
  shows "read_ints (concat (map (\<lambda>lit. show_int lit @ '' '') cl) @ ''0'') ints = ints @ cl"
  using assms
proof (induction cl arbitrary: ints)
  case Nil
  show ?case by (subst read_ints.simps) (simp add: extract_int_zero)
next
  case (Cons l cl)
  let ?rest = "CHR '' '' # concat (map (\<lambda>lit. show_int lit @ '' '') cl) @ ''0''"
  have "extract_int (show_int l @ ?rest) = Some (l, ?rest)"
    using Cons.prems by (intro extract_int_show_int) (simp_all add: not_isdigit_misc)
  moreover have "read_ints ?rest (push_back ints l) = push_back ints l @ cl"
  proof -
    have "extract_int ?rest = extract_int (concat (map (\<lambda>lit. show_int lit @ '' '') cl) @ ''0'')"
      by (simp add: extract_int_def not_isdigit_misc)
    then have "read_ints ?rest (push_back ints l)
        = read_ints (concat (map (\<lambda>lit. show_int lit @ '' '') cl) @ ''0'') (push_back ints l)"
      by (subst (1 2) read_ints.simps) simp
    with Cons show ?thesis by simp
  qed
  ultimately show ?case
    using Cons.prems by (subst read_ints.simps) (simp add: push_back_def)
qed

section \<open>Every literal built is a literal over the 729 variables\<close>

lemma lit_ok_varnum:
  assumes "r \<in> {1..9}" "c \<in> {1..9}" "d \<in> {1..9}"
  shows "lit_ok (varnum r c d)" "lit_ok (- varnum r c d)"
proof -
  from assms have b: "1 \<le> r" "r \<le> 9" "1 \<le> c" "c \<le> 9" "1 \<le> d" "d \<le> 9" by simp_all
  from varnum_bounds [OF b] show "lit_ok (varnum r c d)" "lit_ok (- varnum r c d)"
    by (simp_all add: lit_ok_def)
qed

lemma lits_cell_at_least_one: "\<forall>cl\<in>set (add_cell_at_least_one []). \<forall>l\<in>set cl. lit_ok l"
  by (auto simp: add_cell_at_least_one_closed lit_ok_varnum)

lemma lits_row_at_most_one: "\<forall>cl\<in>set (add_row_at_most_one []). \<forall>l\<in>set cl. lit_ok l"
  by (auto simp: add_row_at_most_one_closed lit_ok_varnum)

lemma lits_col_at_most_one: "\<forall>cl\<in>set (add_col_at_most_one []). \<forall>l\<in>set cl. lit_ok l"
  by (auto simp: add_col_at_most_one_closed lit_ok_varnum)

lemma lits_cell_at_most_one: "\<forall>cl\<in>set (add_cell_at_most_one []). \<forall>l\<in>set cl. lit_ok l"
  by (auto simp: add_cell_at_most_one_closed lit_ok_varnum)

lemma lits_row_at_least_one: "\<forall>cl\<in>set (add_row_at_least_one []). \<forall>l\<in>set cl. lit_ok l"
  by (auto simp: add_row_at_least_one_closed lit_ok_varnum)

lemma lits_col_at_least_one: "\<forall>cl\<in>set (add_col_at_least_one []). \<forall>l\<in>set cl. lit_ok l"
  by (auto simp: add_col_at_least_one_closed lit_ok_varnum)

lemma lits_givens: "\<forall>cl\<in>set (add_givens grid []). \<forall>l\<in>set cl. lit_ok l"
  by (auto simp: add_givens_closed lit_ok_varnum split: if_splits)

lemma box_cells_range:
  assumes "br \<in> {0..2}" "bc \<in> {0..2}" "cell \<in> set (box_cells br bc)"
  shows "fst cell \<in> {1..9}" "snd cell \<in> {1..9}"
  using assms by (auto simp: box_cells_closed)

lemma box_cells_nth:
  assumes "br \<in> {0..2}" "bc \<in> {0..2}" "0 \<le> i" "i \<le> 8"
  shows "fst (box_cells br bc ! nat i) \<in> {1..9}" "snd (box_cells br bc ! nat i) \<in> {1..9}"
proof -
  have "nat i < length (box_cells br bc)"
    using assms(3,4) by (simp add: length_box_cells nat_less_iff)
  then have "box_cells br bc ! nat i \<in> set (box_cells br bc)" by (rule nth_mem)
  from box_cells_range [OF assms(1,2) this]
  show "fst (box_cells br bc ! nat i) \<in> {1..9}" "snd (box_cells br bc ! nat i) \<in> {1..9}" .
qed

lemma lits_box_at_least_one: "\<forall>cl\<in>set (add_box_at_least_one []). \<forall>l\<in>set cl. lit_ok l"
proof (intro ballI)
  fix cl l
  assume "cl \<in> set (add_box_at_least_one [])" "l \<in> set cl"
  then obtain br bc d cell where h: "br \<in> {0..2}" "bc \<in> {0..2}" "d \<in> {1..9}"
    "cell \<in> set (box_cells br bc)" "l = varnum (fst cell) (snd cell) d"
    by (auto simp: add_box_at_least_one_closed)
  from box_cells_range [OF h(1,2,4)] h(3) show "lit_ok l"
    unfolding h(5) by (intro lit_ok_varnum)
qed

lemma lits_box_at_most_one: "\<forall>cl\<in>set (add_box_at_most_one []). \<forall>l\<in>set cl. lit_ok l"
  by (auto simp: add_box_at_most_one_closed intro!: lit_ok_varnum box_cells_nth)

lemma lits_basic: "\<forall>cl\<in>set (sud2sat_basic_clauses grid). \<forall>l\<in>set cl. lit_ok l"
  unfolding basic_clauses_split
  using lits_cell_at_least_one lits_row_at_most_one lits_col_at_most_one lits_box_at_most_one
    lits_givens [of grid]
  by (simp add: ball_Un)

lemma lits_extended: "\<forall>cl\<in>set (sud2sat_extended_clauses grid). \<forall>l\<in>set cl. lit_ok l"
  unfolding extended_clauses_split
  using lits_basic [of grid] lits_cell_at_most_one lits_row_at_least_one lits_col_at_least_one
    lits_box_at_least_one
  by (simp add: ball_Un)

section \<open>The printed formula\<close>

lemma fold_print_clause:
  "fold (\<lambda>lit cout. cout @ show_int lit @ '' '') cl = (\<lambda>cout. cout @ concat (map (\<lambda>lit. show_int lit @ '' '') cl))"
  by (rule fold_append_concat)

lemma print_cnf_closed:
  "print_cnf clauses =
     ''p cnf '' @ show_int NUM_VARS @ '' '' @ show_int (int_of_size (length clauses)) @ [newline]
       @ concat (map (\<lambda>cl. concat (map (\<lambda>lit. show_int lit @ '' '') cl) @ ''0'' @ [newline]) clauses)"
proof -
  have "fold (\<lambda>cl cout. fold (\<lambda>lit cout. cout @ show_int lit @ '' '') cl cout @ ''0'' @ [newline]) clauses
      = (\<lambda>cout. cout @ concat (map (\<lambda>cl. concat (map (\<lambda>lit. show_int lit @ '' '') cl) @ ''0'' @ [newline]) clauses))"
    unfolding fold_print_clause append_assoc by (rule fold_append_concat)
  then show ?thesis
    by (simp add: print_cnf_def Let_def)
qed

lemma show_int_NUM_VARS: "show_int NUM_VARS = ''729''"
  by code_simp

lemma show_int_nat: "show_int (int n) = show_nat n"
  by (simp add: show_int_def)

lemma read_lines_Nil: "read_lines [] = []"
  by (subst read_lines.simps) (simp add: getline_def)

lemma read_lines_line:
  assumes "newline \<notin> set line"
  shows "read_lines (line @ newline # rest) = line # read_lines rest"
proof -
  have "takeWhile (\<lambda>ch. ch \<noteq> newline) (line @ newline # rest) = line"
    using assms by (induction line) auto
  then have "getline (line @ newline # rest) = Some (line, rest)"
    by (simp add: getline_def Let_def)
  then show ?thesis
    by (subst read_lines.simps) simp
qed

lemma read_lines_concat:
  assumes "\<forall>l\<in>set ls. newline \<notin> set l"
  shows "read_lines (concat (map (\<lambda>l. l @ [newline]) ls)) = ls"
  using assms by (induction ls) (simp_all add: read_lines_Nil read_lines_line)

lemma newline_show_nat: "newline \<notin> set (show_nat n)"
  using show_nat_digits [of n] not_isdigit_misc(3) by blast

lemma newline_show_int: "newline \<notin> set (show_int l)"
  using newline_show_nat by (simp add: show_int_def newline_def)

lemma newline_clause_line: "newline \<notin> set (concat (map (\<lambda>lit. show_int lit @ '' '') cl) @ ''0'')"
  using newline_show_int by (auto simp: newline_def)

text \<open>The lines of the formula printed, and reading them back.\<close>

lemma print_cnf_lines:
  assumes "length clauses < 2147483648"
  shows "read_lines (print_cnf clauses) =
    (''p cnf 729 '' @ show_nat (length clauses))
      # map (\<lambda>cl. concat (map (\<lambda>lit. show_int lit @ '' '') cl) @ ''0'') clauses"
proof -
  let ?line = "\<lambda>cl. concat (map (\<lambda>lit. show_int lit @ '' '') cl) @ ''0''"
  have body: "concat (map (\<lambda>cl. ?line cl @ [newline]) clauses)
      = concat (map (\<lambda>l. l @ [newline]) (map ?line clauses))"
    by (simp add: comp_def)
  have hd: "newline \<notin> set (''p cnf 729 '' @ show_nat (length clauses))"
    using newline_show_nat by (simp add: newline_def)
  have "print_cnf clauses = (''p cnf 729 '' @ show_nat (length clauses)) @ newline
      # concat (map (\<lambda>l. l @ [newline]) (map ?line clauses))"
    unfolding print_cnf_closed show_int_NUM_VARS int_of_size_small [OF assms] show_int_nat
    by (simp add: comp_def)
  then show ?thesis
    using read_lines_line [OF hd] read_lines_concat [of "map ?line clauses"] newline_clause_line
    by simp
qed

lemma lit_ok_int: "lit_ok l \<Longrightarrow> l \<noteq> 0 \<and> INT_MIN \<le> l \<and> l \<le> INT_MAX"
  by (simp add: lit_ok_def INT_MIN_def INT_MAX_def)

lemma read_back_clauses:
  assumes "\<forall>cl\<in>set clauses. \<forall>l\<in>set cl. lit_ok l"
  shows "map (\<lambda>line. read_ints line [])
      (map (\<lambda>cl. concat (map (\<lambda>lit. show_int lit @ '' '') cl) @ ''0'') clauses) = clauses"
proof -
  have "read_ints (concat (map (\<lambda>lit. show_int lit @ '' '') cl) @ ''0'') [] = cl"
    if "cl \<in> set clauses" for cl
    using that assms lit_ok_int by (subst read_ints_clause_line) auto
  then show ?thesis
    by (simp add: map_idI)
qed

lemma length_concat_le:
  assumes "\<And>x. length (h x) \<le> k"
  shows "length (concat (map h xs)) \<le> length xs * k"
proof (induction xs)
  case Nil
  show ?case by simp
next
  case (Cons x xs)
  with assms [of x] show ?case by simp
qed

lemma length_add_givens_le: "length (add_givens grid []) \<le> 81"
proof -
  have "length (concat (map (\<lambda>c. if 1 \<le> grid (r - 1) (c - 1) \<and> grid (r - 1) (c - 1) \<le> 9
        then [[varnum r c (grid (r - 1) (c - 1))]] else []) [1..9])) \<le> 9" for r
    using length_concat_le [where k = 1 and xs = "[1..9]"
        and h = "\<lambda>c. if 1 \<le> grid (r - 1) (c - 1) \<and> grid (r - 1) (c - 1) \<le> 9
        then [[varnum r c (grid (r - 1) (c - 1))]] else []"]
    by simp
  from length_concat_le [where k = 9 and xs = "[1..9]", OF this] show ?thesis
    by (simp add: add_givens_closed)
qed

lemma length_clauses_small:
  "length (sud2sat_basic_clauses grid) < 2147483648"
  "length (sud2sat_extended_clauses grid) < 2147483648"
  using length_add_givens_le [of grid]
  by (simp_all add: length_extended_clauses length_basic_clauses)

lemma digit_chars:
  "digit_char 0 = CHR ''0''" "digit_char 1 = CHR ''1''" "digit_char 2 = CHR ''2''"
  "digit_char 3 = CHR ''3''" "digit_char 4 = CHR ''4''" "digit_char 5 = CHR ''5''"
  "digit_char 6 = CHR ''6''" "digit_char 7 = CHR ''7''" "digit_char 8 = CHR ''8''"
  "digit_char 9 = CHR ''9''" "digit_char (Suc 0) = CHR ''1''"
  by code_simp+

text \<open>
  C2. On a puzzle whose non-blank characters are exactly 81 accepted symbols, both
  encoders exit with status 0. The output of the minimal encoder is the header line
  \<open>p cnf 729 N\<close> followed by exactly \<open>N\<close> clause lines, with \<open>N = 81 + 2916 * 3 + G\<close> and
  \<open>G\<close> the number of clue characters \<open>'1'\<close> to \<open>'9'\<close> of the input; the output of the
  extended encoder is the header with \<open>N + 2916 + 81 * 3\<close> followed by exactly that many
  clause lines. The clause lines, read back, are the clauses built from the grid.
\<close>

theorem clause_counts:
  assumes "length (filter (\<lambda>ch. \<not> isspace ch) inp) = 81"
    and "\<forall>ch\<in>set (filter (\<lambda>ch. \<not> isspace ch) inp). is_clue ch \<or> is_wildcard ch"
    and "N = 81 + 2916 * 3 + length (filter is_clue (filter (\<lambda>ch. \<not> isspace ch) inp))"
  shows "\<exists>grid.
    sud2sat_basic inp grid0
      = \<lparr>exit_code = 0, out = print_cnf (sud2sat_basic_clauses grid), err = []\<rparr> \<and>
    sud2sat_extended inp grid0
      = \<lparr>exit_code = 0, out = print_cnf (sud2sat_extended_clauses grid), err = []\<rparr> \<and>
    length (sud2sat_basic_clauses grid) = N \<and>
    length (sud2sat_extended_clauses grid) = N + 2916 + 81 * 3 \<and>
    hd (read_lines (out (sud2sat_basic inp grid0))) = ''p cnf 729 '' @ show_nat N \<and>
    length (tl (read_lines (out (sud2sat_basic inp grid0)))) = N \<and>
    map (\<lambda>line. read_ints line []) (tl (read_lines (out (sud2sat_basic inp grid0))))
      = sud2sat_basic_clauses grid \<and>
    hd (read_lines (out (sud2sat_extended inp grid0)))
      = ''p cnf 729 '' @ show_nat (N + 2916 + 81 * 3) \<and>
    length (tl (read_lines (out (sud2sat_extended inp grid0)))) = N + 2916 + 81 * 3 \<and>
    map (\<lambda>line. read_ints line []) (tl (read_lines (out (sud2sat_extended inp grid0))))
      = sud2sat_extended_clauses grid"
proof -
  let ?all = "filter (\<lambda>ch. \<not> isspace ch) inp"
  define g where "g = fold (set_cell ?all) [0..80] grid0"
  have r: "read_grid inp grid0 = Inr g"
    unfolding g_def by (rule read_grid_well_formed [OF assms(1,2)])
  have nb: "length (sud2sat_basic_clauses g) = N"
    using length_add_givens [OF assms(1), of grid0 "[]"]
    by (simp add: length_basic_clauses assms(3) g_def)
  have ne: "length (sud2sat_extended_clauses g) = N + 2916 + 81 * 3"
    by (simp add: length_extended_clauses nb)
  have ob: "sud2sat_basic inp grid0
      = \<lparr>exit_code = 0, out = print_cnf (sud2sat_basic_clauses g), err = []\<rparr>"
    and oe: "sud2sat_extended inp grid0
      = \<lparr>exit_code = 0, out = print_cnf (sud2sat_extended_clauses g), err = []\<rparr>"
    by (simp_all add: sud2sat_basic_def sud2sat_extended_def r)
  note lb = print_cnf_lines [OF length_clauses_small(1) [of g]]
  note le = print_cnf_lines [OF length_clauses_small(2) [of g]]
  note bb = read_back_clauses [OF lits_basic [of g]]
  note be = read_back_clauses [OF lits_extended [of g]]
  have "hd (read_lines (out (sud2sat_basic inp grid0))) = ''p cnf 729 '' @ show_nat N"
    "length (tl (read_lines (out (sud2sat_basic inp grid0)))) = N"
    "map (\<lambda>line. read_ints line []) (tl (read_lines (out (sud2sat_basic inp grid0))))
      = sud2sat_basic_clauses g"
    unfolding ob using bb by (simp_all add: lb nb)
  moreover have "hd (read_lines (out (sud2sat_extended inp grid0)))
      = ''p cnf 729 '' @ show_nat (N + 2916 + 81 * 3)"
    "length (tl (read_lines (out (sud2sat_extended inp grid0)))) = N + 2916 + 81 * 3"
    "map (\<lambda>line. read_ints line []) (tl (read_lines (out (sud2sat_extended inp grid0))))
      = sud2sat_extended_clauses g"
    unfolding oe using be by (simp_all add: le ne)
  ultimately show ?thesis
    using ob oe nb ne by (intro exI [of _ g]) blast
qed

theorem clause_counts_witness:
  "exit_code (sud2sat_basic ''530070000600195000098000060800060003400803001700020006060000280000419005000080079'' (\<lambda>r c. 0)) = 0 \<and>
   hd (read_lines (out (sud2sat_basic ''530070000600195000098000060800060003400803001700020006060000280000419005000080079'' (\<lambda>r c. 0))))
     = ''p cnf 729 8859'' \<and>
   length (tl (read_lines (out (sud2sat_basic ''530070000600195000098000060800060003400803001700020006060000280000419005000080079'' (\<lambda>r c. 0)))))
     = 8859 \<and>
   hd (read_lines (out (sud2sat_extended ''530070000600195000098000060800060003400803001700020006060000280000419005000080079'' (\<lambda>r c. 0))))
     = ''p cnf 729 12018'' \<and>
   length (tl (read_lines (out (sud2sat_extended ''530070000600195000098000060800060003400803001700020006060000280000419005000080079'' (\<lambda>r c. 0)))))
     = 12018"
proof -
  let ?inp = "''530070000600195000098000060800060003400803001700020006060000280000419005000080079''"
  have h1: "length (filter (\<lambda>ch. \<not> isspace ch) ?inp) = 81"
    by (simp add: isspace_def)
  have h2: "\<forall>ch\<in>set (filter (\<lambda>ch. \<not> isspace ch) ?inp). is_clue ch \<or> is_wildcard ch"
    by (simp add: isspace_def is_clue_def is_wildcard_def)
  have h3: "(8859::nat) = 81 + 2916 * 3 + length (filter is_clue (filter (\<lambda>ch. \<not> isspace ch) ?inp))"
    by (simp add: isspace_def is_clue_def)
  have n: "8859 + 2916 + 81 * 3 = (12018::nat)"
    by simp
  have s: "show_nat 8859 = ''8859''" "show_nat 12018 = ''12018''"
    by (simp_all add: show_nat.simps digit_chars)
  from clause_counts [OF h1 h2 h3, of "\<lambda>r c. 0"] obtain grid where
    c: "sud2sat_basic ?inp (\<lambda>r c. 0)
      = \<lparr>exit_code = 0, out = print_cnf (sud2sat_basic_clauses grid), err = []\<rparr>"
    "hd (read_lines (out (sud2sat_basic ?inp (\<lambda>r c. 0)))) = ''p cnf 729 '' @ show_nat 8859"
    "length (tl (read_lines (out (sud2sat_basic ?inp (\<lambda>r c. 0))))) = 8859"
    "hd (read_lines (out (sud2sat_extended ?inp (\<lambda>r c. 0))))
      = ''p cnf 729 '' @ show_nat (8859 + 2916 + 81 * 3)"
    "length (tl (read_lines (out (sud2sat_extended ?inp (\<lambda>r c. 0))))) = 8859 + 2916 + 81 * 3"
    by blast
  have "exit_code (sud2sat_basic ?inp (\<lambda>r c. 0)) = 0"
    by (simp only: c(1) run.simps)
  with c(2-5) show ?thesis
    unfolding n s by (simp only: append.simps simp_thms)
qed

text \<open>
  C7. When the puzzle is accepted, the output of either encoder is the header line
  \<open>p cnf 729 N\<close>, with \<open>N\<close> the number of clauses built, followed by one line per clause, in
  the order the clauses were built: the literals of the clause in stored order, each
  followed by a blank, then \<open>0\<close>. Reading the lines after the header back gives the clause
  list itself, so no clause is moved, merged or dropped.
\<close>

theorem serialized_formula:
  assumes "read_grid inp grid0 = Inr grid"
    and "(prog = sud2sat_basic \<and> cls = sud2sat_basic_clauses grid) \<or>
         (prog = sud2sat_extended \<and> cls = sud2sat_extended_clauses grid)"
  shows "out (prog inp grid0) =
      ''p cnf 729 '' @ show_nat (length cls) @ [newline]
        @ concat (map (\<lambda>cl. concat (map (\<lambda>lit. show_int lit @ '' '') cl) @ ''0'' @ [newline]) cls) \<and>
    read_lines (out (prog inp grid0)) =
      (''p cnf 729 '' @ show_nat (length cls))
        # map (\<lambda>cl. concat (map (\<lambda>lit. show_int lit @ '' '') cl) @ ''0'') cls \<and>
    map (\<lambda>line. read_ints line []) (tl (read_lines (out (prog inp grid0)))) = cls"
proof -
  from assms(2) have small: "length cls < 2147483648"
    and lits: "\<forall>cl\<in>set cls. \<forall>l\<in>set cl. lit_ok l"
    using length_clauses_small [of grid] lits_basic [of grid] lits_extended [of grid] by auto
  from assms have o: "out (prog inp grid0) = print_cnf cls"
    by (auto simp: sud2sat_basic_def sud2sat_extended_def)
  have "print_cnf cls = ''p cnf 729 '' @ show_nat (length cls) @ [newline]
        @ concat (map (\<lambda>cl. concat (map (\<lambda>lit. show_int lit @ '' '') cl) @ ''0'' @ [newline]) cls)"
    unfolding print_cnf_closed show_int_NUM_VARS int_of_size_small [OF small] show_int_nat
    by simp
  moreover note print_cnf_lines [OF small] read_back_clauses [OF lits]
  ultimately show ?thesis
    unfolding o by simp
qed


theorem serialized_formula_witness:
  "\<exists>grid. read_grid ''530070000600195000098000060800060003400803001700020006060000280000419005000080079'' (\<lambda>r c. 0) = Inr grid \<and>
    read_lines (out (sud2sat_extended ''530070000600195000098000060800060003400803001700020006060000280000419005000080079'' (\<lambda>r c. 0)))
      = (''p cnf 729 '' @ show_nat (length (sud2sat_extended_clauses grid)))
        # map (\<lambda>cl. concat (map (\<lambda>lit. show_int lit @ '' '') cl) @ ''0'')
            (sud2sat_extended_clauses grid) \<and>
    map (\<lambda>line. read_ints line [])
      (tl (read_lines (out (sud2sat_extended ''530070000600195000098000060800060003400803001700020006060000280000419005000080079'' (\<lambda>r c. 0)))))
      = sud2sat_extended_clauses grid"
proof -
  let ?inp = "''530070000600195000098000060800060003400803001700020006060000280000419005000080079''"
  have h1: "length (filter (\<lambda>ch. \<not> isspace ch) ?inp) = 81"
    by (simp add: isspace_def)
  have h2: "\<forall>ch\<in>set (filter (\<lambda>ch. \<not> isspace ch) ?inp). is_clue ch \<or> is_wildcard ch"
    by (simp add: isspace_def is_clue_def is_wildcard_def)
  define g where "g = fold (set_cell (filter (\<lambda>ch. \<not> isspace ch) ?inp)) [0..80] (\<lambda>r c. 0)"
  have r: "read_grid ?inp (\<lambda>r c. 0) = Inr g"
    unfolding g_def by (rule read_grid_well_formed [OF h1 h2])
  have "(sud2sat_extended = sud2sat_basic \<and> sud2sat_extended_clauses g = sud2sat_basic_clauses g) \<or>
      (sud2sat_extended = sud2sat_extended \<and> sud2sat_extended_clauses g = sud2sat_extended_clauses g)"
    by simp
  from serialized_formula [OF r this] r show ?thesis
    by blast
qed

section \<open>Accepting and rejecting puzzles\<close>

lemma print_cnf_nonempty: "print_cnf clauses \<noteq> []"
  by (simp add: print_cnf_closed)

lemma ones_accepted:
  assumes "int n mod 4294967296 = 81" "81 \<le> n"
  shows "read_grid (replicate n CHR ''1'') grid0
    = Inr (fold (set_cell (replicate n CHR ''1'')) [0..80] grid0)"
proof -
  let ?all = "replicate n CHR ''1''"
  have a: "filter (\<lambda>ch. \<not> isspace ch) ?all = ?all"
    by (simp add: isspace_def)
  have "?all ! nat k = CHR ''1''" if "k \<in> set [0..80]" for k
    using that assms(2) by (intro nth_replicate) (auto simp: nat_less_iff)
  then have "find (\<lambda>k. \<not> is_clue (?all ! nat k) \<and> \<not> is_wildcard (?all ! nat k)) [0..80] = None"
    unfolding find_None_iff by (simp add: is_clue_def)
  moreover have "int_of_size (length ?all) = 81"
    using assms(1) by (simp add: int_of_size_def INT_MAX_def)
  ultimately show ?thesis
    by (simp add: read_grid_closed a Let_def)
qed

lemma ones_count: "length (filter (\<lambda>ch. \<not> isspace ch) (replicate n CHR ''1'')) = n"
  by (simp add: isspace_def)

text \<open>
  C6 fails on inputs so long that \<open>(int)all.size()\<close> wraps around: \<open>2^32 + 81\<close> characters
  \<open>'1'\<close> are not 81 symbols, yet \<open>read_grid\<close> accepts them (it reads the first 81) and the
  encoder prints a formula.
\<close>

theorem oversized_puzzle_accepted:
  "length (filter (\<lambda>ch. \<not> isspace ch) (replicate 4294967377 CHR ''1'')) = 4294967377 \<and>
   exit_code (sud2sat_basic (replicate 4294967377 CHR ''1'') (\<lambda>r c. 0)) = 0 \<and>
   out (sud2sat_basic (replicate 4294967377 CHR ''1'') (\<lambda>r c. 0)) \<noteq> []"
proof -
  have "int 4294967377 mod 4294967296 = 81" "81 \<le> (4294967377::nat)"
    by simp_all
  from ones_accepted [OF this] show ?thesis
    by (simp only: ones_count sud2sat_basic_def sum.case run.simps print_cnf_nonempty
        simp_thms)
qed

text \<open>
  Below \<open>2^31\<close> non-blank characters the conversion is exact: the puzzle is accepted
  exactly when it has 81 non-blank characters, all of them accepted symbols. Whenever
  \<open>read_grid\<close> fails it reports the count, or an offending character and its position,
  and nothing is written to standard output.
\<close>

lemma read_grid_accepts_iff:
  assumes "length (filter (\<lambda>ch. \<not> isspace ch) inp) < 2147483648"
  shows "(\<exists>grid. read_grid inp grid0 = Inr grid) \<longleftrightarrow>
    length (filter (\<lambda>ch. \<not> isspace ch) inp) = 81 \<and>
    (\<forall>ch\<in>set (filter (\<lambda>ch. \<not> isspace ch) inp). is_clue ch \<or> is_wildcard ch)"
proof -
  let ?all = "filter (\<lambda>ch. \<not> isspace ch) inp"
  let ?bad = "\<lambda>k. \<not> is_clue (?all ! nat k) \<and> \<not> is_wildcard (?all ! nat k)"
  show ?thesis
  proof (cases "length ?all = 81")
    case False
    then show ?thesis
      by (simp add: read_grid_closed int_of_size_small [OF assms] Let_def)
  next
    case True
    have "find ?bad [0..80] = None \<longleftrightarrow> (\<forall>ch\<in>set ?all. is_clue ch \<or> is_wildcard ch)"
    proof
      assume n: "find ?bad [0..80] = None"
      show "\<forall>ch\<in>set ?all. is_clue ch \<or> is_wildcard ch"
      proof
        fix ch assume "ch \<in> set ?all"
        then obtain i where i: "i < 81" "?all ! i = ch"
          using True by (metis in_set_conv_nth)
        then have "int i \<in> set [0..80]" by simp
        with n have "\<not> ?bad (int i)" unfolding find_None_iff by blast
        with i(2) show "is_clue ch \<or> is_wildcard ch" by auto
      qed
    next
      assume v: "\<forall>ch\<in>set ?all. is_clue ch \<or> is_wildcard ch"
      have "?all ! nat k \<in> set ?all" if "k \<in> set [0..80]" for k
        using that True by (intro nth_mem) (auto simp: nat_less_iff)
      with v show "find ?bad [0..80] = None"
        unfolding find_None_iff by blast
    qed
    then show ?thesis
      using True
      by (auto simp: read_grid_closed int_of_size_small Let_def split: option.splits)
  qed
qed

lemma read_grid_rejects:
  assumes "read_grid inp grid0 = Inl e"
  shows "sud2sat_basic inp grid0 = \<lparr>exit_code = 1, out = [], err = error_message e\<rparr>"
    and "sud2sat_extended inp grid0 = \<lparr>exit_code = 1, out = [], err = error_message e\<rparr>"
    and "e = WrongCount (length (filter (\<lambda>ch. \<not> isspace ch) inp)) \<or>
      (\<exists>k\<in>{0..80}. e = InvalidChar (filter (\<lambda>ch. \<not> isspace ch) inp ! nat k) k \<and>
        \<not> is_clue (filter (\<lambda>ch. \<not> isspace ch) inp ! nat k) \<and>
        \<not> is_wildcard (filter (\<lambda>ch. \<not> isspace ch) inp ! nat k))"
proof -
  show "sud2sat_basic inp grid0 = \<lparr>exit_code = 1, out = [], err = error_message e\<rparr>"
    and "sud2sat_extended inp grid0 = \<lparr>exit_code = 1, out = [], err = error_message e\<rparr>"
    using assms by (simp_all add: sud2sat_basic_def sud2sat_extended_def)
  let ?all = "filter (\<lambda>ch. \<not> isspace ch) inp"
  let ?bad = "\<lambda>k. \<not> is_clue (?all ! nat k) \<and> \<not> is_wildcard (?all ! nat k)"
  show "e = WrongCount (length ?all) \<or>
      (\<exists>k\<in>{0..80}. e = InvalidChar (?all ! nat k) k \<and> \<not> is_clue (?all ! nat k) \<and>
        \<not> is_wildcard (?all ! nat k))"
  proof (cases "int_of_size (length ?all) = 81")
    case False
    with assms show ?thesis by (simp add: read_grid_closed Let_def)
  next
    case True
    with assms obtain k where k: "find ?bad [0..80] = Some k" "e = InvalidChar (?all ! nat k) k"
      by (auto simp: read_grid_closed Let_def split: option.splits)
    from k(1) have "?bad k" "k \<in> set [0..80]"
      by (auto simp: find_Some_iff in_set_conv_nth)
    with k(2) show ?thesis by auto
  qed
qed

section \<open>The valuation\<close>

lemma NUM_VARS_729: "NUM_VARS = 729"
  by (simp add: NUM_VARS_def NUM_ROWS_def NUM_COLS_def NUM_DIGITS_def)

lemma set_valuation_append:
  "set_valuation (xs @ ys) val =
     (case set_valuation xs val of None \<Rightarrow> None | Some val' \<Rightarrow> set_valuation ys val')"
  by (induction xs arbitrary: val) simp_all

lemma set_valuation_defined:
  "INT_MIN \<notin> set xs \<Longrightarrow> \<exists>val'. set_valuation xs val = Some val'"
  by (induction xs arbitrary: val) auto

lemma set_valuation_undefined:
  "INT_MIN \<in> set xs \<Longrightarrow> set_valuation xs val = None"
  by (induction xs arbitrary: val) (auto simp: INT_MIN_def NUM_VARS_729)

lemma set_valuation_length:
  "set_valuation xs val = Some val' \<Longrightarrow> length val' = length val"
  by (induction xs arbitrary: val) (auto split: if_splits)

lemma set_valuation_skip:
  assumes "x \<noteq> INT_MIN" "x < - 729 \<or> x = 0 \<or> 729 < x"
  shows "set_valuation (x # xs) val = set_valuation xs val"
  using assms by (auto simp: NUM_VARS_729)

lemma set_valuation_nth:
  assumes "set_valuation xs val = Some val'"
    and "\<forall>v\<in>{1..729}. \<not> (v \<in> set xs \<and> - v \<in> set xs)"
    and "i < length val" "length val = 730"
  shows "val' ! i =
    (if 1 \<le> i \<and> int i \<in> set xs then 1 else if 1 \<le> i \<and> - int i \<in> set xs then - 1 else val ! i)"
  using assms
proof (induction xs arbitrary: val)
  case Nil
  then show ?case by simp
next
  case (Cons x xs)
  have cons: "\<forall>v\<in>{1..729}. \<not> (v \<in> set xs \<and> - v \<in> set xs)"
    using Cons.prems(2) by auto
  have nx: "- x \<notin> set xs" if "x \<in> {1..729} \<or> - x \<in> {1..729}"
    using Cons.prems(2) that by (auto dest: bspec [of _ _ x] bspec [of _ _ "- x"])
  consider (pos) "0 < x" "x \<le> 729" | (neg) "x < 0" "x \<noteq> INT_MIN" "- x \<le> 729" 
    | (skip) "x \<noteq> INT_MIN" "x < - 729 \<or> x = 0 \<or> 729 < x" | (ub) "x = INT_MIN"
    by atomize_elim arith
  then show ?case
  proof cases
    case pos
    let ?v = "val[nat x := 1]"
    from pos Cons.prems(1) have s: "set_valuation xs ?v = Some val'"
      by (simp add: NUM_VARS_729)
    from Cons.IH [OF s cons] Cons.prems(3,4)
    have "val' ! i = (if 1 \<le> i \<and> int i \<in> set xs then 1
        else if 1 \<le> i \<and> - int i \<in> set xs then - 1 else ?v ! i)"
      by simp
    moreover have "?v ! i = (if i = nat x then 1 else val ! i)"
      using Cons.prems(3) by (simp add: nth_list_update)
    moreover have "i = nat x \<longleftrightarrow> int i = x" using pos by auto
    moreover have "- int i \<noteq> x" using pos by auto
    ultimately show ?thesis
      using nx pos by auto
  next
    case neg
    let ?v = "val[nat (- x) := - 1]"
    from neg Cons.prems(1) have s: "set_valuation xs ?v = Some val'"
      by (simp add: NUM_VARS_729)
    from Cons.IH [OF s cons] Cons.prems(3,4)
    have "val' ! i = (if 1 \<le> i \<and> int i \<in> set xs then 1
        else if 1 \<le> i \<and> - int i \<in> set xs then - 1 else ?v ! i)"
      by simp
    moreover have "?v ! i = (if i = nat (- x) then - 1 else val ! i)"
      using Cons.prems(3) by (simp add: nth_list_update)
    moreover have "i = nat (- x) \<longleftrightarrow> - int i = x" using neg by auto
    moreover have "int i \<noteq> x" using neg by auto
    moreover have "- int i = x \<Longrightarrow> int i \<notin> set xs" using nx neg by auto
    moreover have "- int i = x \<Longrightarrow> 1 \<le> i" using neg by auto
    ultimately show ?thesis
      by auto
  next
    case skip
    from Cons.prems(1) have s: "set_valuation xs val = Some val'"
      by (simp only: set_valuation_skip [OF skip])
    have "int i \<noteq> x \<and> - int i \<noteq> x \<or> i = 0"
      using skip(2) Cons.prems(3,4) by auto
    with Cons.IH [OF s cons Cons.prems(3,4)] show ?thesis
      by auto
  next
    case ub
    with Cons.prems(1) show ?thesis
      by (simp add: NUM_VARS_729 INT_MIN_def)
  qed
qed

lemma set_valuation_perm:
  assumes "mset xs = mset ys" "\<forall>v\<in>{1..729}. \<not> (v \<in> set xs \<and> - v \<in> set xs)"
    "length val = 730"
  shows "set_valuation xs val = set_valuation ys val"
proof (cases "INT_MIN \<in> set xs")
  case True
  moreover from True assms(1) have "INT_MIN \<in> set ys" by (metis mset_eq_setD)
  ultimately show ?thesis by (simp add: set_valuation_undefined)
next
  case False
  have eq: "set xs = set ys" using assms(1) by (metis mset_eq_setD)
  with False have "INT_MIN \<notin> set ys" by simp
  from set_valuation_defined [OF False] set_valuation_defined [OF this]
  obtain v1 v2 where v: "set_valuation xs val = Some v1" "set_valuation ys val = Some v2"
    by blast
  have c2: "\<forall>v\<in>{1..729}. \<not> (v \<in> set ys \<and> - v \<in> set ys)" using assms(2) eq by simp
  have "v1 = v2"
  proof (rule nth_equalityI)
    show "length v1 = length v2"
      using set_valuation_length [OF v(1)] set_valuation_length [OF v(2)] by simp
    fix i assume "i < length v1"
    then have i: "i < length val" using set_valuation_length [OF v(1)] by simp
    show "v1 ! i = v2 ! i"
      by (simp only: set_valuation_nth [OF v(1) assms(2) i assms(3)]
          set_valuation_nth [OF v(2) c2 i assms(3)] eq)
  qed
  with v show ?thesis by simp
qed

section \<open>The decoded grid\<close>

lemma decode_grid_fold: "decode_grid val = fold (decode_step val) [1..729] (\<lambda>r c. 0)"
proof -
  have "decode_step val = (\<lambda>v grid. if val ! nat v = 1
      then (case inv_varnum v of (r, c, d) \<Rightarrow> grid(r - 1 := (grid (r - 1))(c - 1 := d)))
      else grid)"
    by (intro ext) (simp add: decode_step_def)
  then show ?thesis
    by (simp add: decode_grid_def NUM_VARS_729)
qed

lemma decode_step_cell:
  "decode_step val v grid r0 c0 =
    (if val ! nat v = 1 \<and> fst (inv_varnum v) - 1 = r0 \<and> fst (snd (inv_varnum v)) - 1 = c0
     then snd (snd (inv_varnum v)) else grid r0 c0)"
  by (cases "inv_varnum v") (auto simp: decode_step_def)

lemma fold_decode_step:
  "fold (decode_step val) vs grid r0 c0 =
    (let ts = filter (\<lambda>v. val ! nat v = 1 \<and> fst (inv_varnum v) - 1 = r0
                 \<and> fst (snd (inv_varnum v)) - 1 = c0) vs
     in if ts = [] then grid r0 c0 else snd (snd (inv_varnum (last ts))))"
proof (induction vs arbitrary: grid)
  case Nil
  show ?case by simp
next
  case (Cons v vs)
  let ?p = "\<lambda>v. val ! nat v = 1 \<and> fst (inv_varnum v) - 1 = r0 \<and> fst (snd (inv_varnum v)) - 1 = c0"
  have "fold (decode_step val) (v # vs) grid r0 c0
      = (if filter ?p vs = [] then decode_step val v grid r0 c0
         else snd (snd (inv_varnum (last (filter ?p vs)))))"
    using Cons.IH [of "decode_step val v grid"] by (simp add: Let_def)
  also have "decode_step val v grid r0 c0 = (if ?p v then snd (snd (inv_varnum v)) else grid r0 c0)"
    by (rule decode_step_cell)
  finally show ?case
    by (simp add: Let_def)
qed

lemma sorted_le_last:
  fixes xs :: "int list"
  assumes "sorted xs" "x \<in> set xs"
  shows "x \<le> last xs"
proof (cases xs rule: rev_cases)
  case Nil
  with assms(2) show ?thesis by simp
next
  case (snoc ys l)
  with assms show ?thesis by (auto simp: sorted_append)
qed

lemma true_vars_of_cell:
  assumes "r \<in> {1..9}" "c \<in> {1..9}"
  shows "set (filter (\<lambda>v. val ! nat v = 1 \<and> fst (inv_varnum v) - 1 = r - 1
                 \<and> fst (snd (inv_varnum v)) - 1 = c - 1) [1..729])
    = varnum r c ` {d \<in> {1..9}. val ! nat (varnum r c d) = 1}"
proof (intro set_eqI iffI)
  fix v
  assume "v \<in> set (filter (\<lambda>v. val ! nat v = 1 \<and> fst (inv_varnum v) - 1 = r - 1
                 \<and> fst (snd (inv_varnum v)) - 1 = c - 1) [1..729])"
  then have v: "1 \<le> v" "v \<le> 729" "val ! nat v = 1" "fst (inv_varnum v) = r"
    "fst (snd (inv_varnum v)) = c"
    by auto
  obtain r' c' d' where i: "inv_varnum v = (r', c', d')" by (cases "inv_varnum v")
  from varnum_inv_varnum [OF v(1,2)] i v(4,5)
  have "varnum r c d' = v" "d' \<in> {1..9}" by auto
  with v(3) show "v \<in> varnum r c ` {d \<in> {1..9}. val ! nat (varnum r c d) = 1}"
    by blast
next
  fix v
  assume "v \<in> varnum r c ` {d \<in> {1..9}. val ! nat (varnum r c d) = 1}"
  then obtain d where d: "d \<in> {1..9}" "val ! nat (varnum r c d) = 1" "v = varnum r c d"
    by blast
  from assms d(1) have b: "1 \<le> r" "r \<le> 9" "1 \<le> c" "c \<le> 9" "1 \<le> d" "d \<le> 9" by simp_all
  from inv_varnum_varnum [OF b] varnum_bounds [OF b] d(2,3)
  show "v \<in> set (filter (\<lambda>v. val ! nat v = 1 \<and> fst (inv_varnum v) - 1 = r - 1
                 \<and> fst (snd (inv_varnum v)) - 1 = c - 1) [1..729])"
    by simp
qed

lemma decode_grid_empty_cell:
  assumes "r \<in> {1..9}" "c \<in> {1..9}" "\<forall>d\<in>{1..9}. val ! nat (varnum r c d) \<noteq> 1"
  shows "decode_grid val (r - 1) (c - 1) = 0"
proof -
  from assms(3) have "{d \<in> {1..9}. val ! nat (varnum r c d) = 1} = {}" by blast
  with true_vars_of_cell [OF assms(1,2), of val]
  have e: "filter (\<lambda>v. val ! nat v = 1 \<and> fst (inv_varnum v) - 1 = r - 1
                 \<and> fst (snd (inv_varnum v)) - 1 = c - 1) [1..729] = []"
    by (simp only: image_empty set_empty)
  show ?thesis
    unfolding decode_grid_fold fold_decode_step Let_def e by simp
qed

lemma decode_grid_largest_digit:
  assumes "r \<in> {1..9}" "c \<in> {1..9}" "d \<in> {1..9}" "val ! nat (varnum r c d) = 1"
    and "\<forall>d'\<in>{d + 1..9}. val ! nat (varnum r c d') \<noteq> 1"
  shows "decode_grid val (r - 1) (c - 1) = d"
proof -
  let ?ts = "filter (\<lambda>v. val ! nat v = 1 \<and> fst (inv_varnum v) - 1 = r - 1
                 \<and> fst (snd (inv_varnum v)) - 1 = c - 1) [1..729]"
  note s = true_vars_of_cell [OF assms(1,2), of val]
  have m: "varnum r c d \<in> set ?ts" unfolding s using assms(3,4) by blast
  have ne: "?ts \<noteq> []"
    by (rule length_greater_0_conv [THEN iffD1, OF length_pos_if_in_set [OF m]])
  then have "last ?ts \<in> set ?ts" by (rule last_in_set)
  then obtain d' where d': "d' \<in> {1..9}" "val ! nat (varnum r c d') = 1" "last ?ts = varnum r c d'"
    unfolding s by blast
  have "sorted ?ts" using sorted_filter [of "\<lambda>v. v" "[1..729]"] by simp
  from sorted_le_last [OF this m] have "varnum r c d \<le> varnum r c d'"
    by (simp only: d'(3))
  then have "d \<le> d'"
    by (simp add: varnum_def)
  moreover have "d' \<le> d"
  proof (rule ccontr)
    assume "\<not> d' \<le> d"
    with d'(1) have "d' \<in> {d + 1..9}" by simp
    with assms(5) d'(2) show False by blast
  qed
  ultimately have "d' = d" by simp
  from assms(1-3) have b: "1 \<le> r" "r \<le> 9" "1 \<le> c" "c \<le> 9" "1 \<le> d" "d \<le> 9" by simp_all
  have "decode_grid val (r - 1) (c - 1) = snd (snd (inv_varnum (last ?ts)))"
    unfolding decode_grid_fold fold_decode_step Let_def using ne by (rule if_not_P)
  then show ?thesis
    unfolding d'(3) \<open>d' = d\<close> inv_varnum_varnum [OF b] by simp
qed

section \<open>Running the decoder\<close>

lemma getline_line:
  assumes "newline \<notin> set line"
  shows "getline (line @ newline # rest) = Some (line, rest)"
proof -
  have "takeWhile (\<lambda>ch. ch \<noteq> newline) (line @ newline # rest) = line"
    using assms by (induction line) auto
  then show ?thesis
    by (simp add: getline_def Let_def)
qed

lemma newline_assignment_line: "newline \<notin> set (assignment_line lits)"
  unfolding assignment_line_def by (rule newline_clause_line)

lemma getline_sat_output:
  "getline (sat_output lits) = Some (''SAT'', assignment_line lits @ [newline])"
  "getline (assignment_line lits @ [newline]) = Some (assignment_line lits, [])"
proof -
  have "newline \<notin> set ''SAT''" by (simp add: newline_def)
  from getline_line [OF this] show "getline (sat_output lits) = Some (''SAT'', assignment_line lits @ [newline])"
    by (simp add: sat_output_def)
  from getline_line [OF newline_assignment_line]
  show "getline (assignment_line lits @ [newline]) = Some (assignment_line lits, [])" .
qed

lemma read_ints_assignment_line:
  assumes "\<forall>l\<in>set lits. l \<noteq> 0 \<and> INT_MIN < l \<and> l \<le> INT_MAX"
  shows "read_ints (assignment_line lits) [] = lits"
proof -
  from assms have "\<forall>l\<in>set lits. l \<noteq> 0 \<and> INT_MIN \<le> l \<and> l \<le> INT_MAX" by auto
  from read_ints_clause_line [OF this, of "[]"] show ?thesis
    by (simp add: assignment_line_def)
qed

lemma sat2sud_two_lines:
  assumes "getline inp = Some (''SAT'', rest)" "getline rest = Some (line, rest')"
  shows "sat2sud inp =
    (case set_valuation (read_ints line []) (replicate 730 0) of
       None \<Rightarrow> None
     | Some val \<Rightarrow> Some \<lparr>exit_code = 0, out = print_grid (decode_grid val), err = []\<rparr>)"
  using assms by (simp add: sat2sud_def NUM_VARS_729)

lemma sat2sud_sat_output:
  assumes "\<forall>l\<in>set lits. l \<noteq> 0 \<and> INT_MIN < l \<and> l \<le> INT_MAX"
  shows "sat2sud (sat_output lits) =
    (case set_valuation lits (replicate 730 0) of
       None \<Rightarrow> None
     | Some val \<Rightarrow> Some \<lparr>exit_code = 0, out = print_grid (decode_grid val), err = []\<rparr>)"
  by (simp only: sat2sud_two_lines [OF getline_sat_output] read_ints_assignment_line [OF assms])

lemma sat2sud_other_first_line:
  assumes "getline inp = Some (first, rest)" "first \<noteq> ''SAT''"
  shows "\<exists>r. sat2sud inp = Some r \<and> exit_code r = 1 \<and> out r = []"
  using assms by (simp add: sat2sud_def)

lemma print_grid_closed:
  "print_grid grid = concat (map (\<lambda>r. concat (map (\<lambda>c. show_int (grid r c)) [0..8]) @ [newline]) [0..8])"
  unfolding print_grid_def
  by (simp only: fold_append_concat append_assoc append_Nil)

lemma show_int_digit: "0 \<le> d \<Longrightarrow> d \<le> 9 \<Longrightarrow> show_int d = [digit_char (nat d)]"
  by (subst show_int_def, subst show_nat.simps) auto

lemma decode_grid_range: "0 \<le> decode_grid val r0 c0 \<and> decode_grid val r0 c0 \<le> 9"
proof -
  let ?ts = "filter (\<lambda>v. val ! nat v = 1 \<and> fst (inv_varnum v) - 1 = r0
                 \<and> fst (snd (inv_varnum v)) - 1 = c0) [1..729]"
  show ?thesis
  proof (cases "?ts = []")
    case True
    then show ?thesis
      unfolding decode_grid_fold fold_decode_step Let_def by simp
  next
    case False
    then have "last ?ts \<in> set ?ts" by (rule last_in_set)
    then have v: "1 \<le> last ?ts" "last ?ts \<le> 729" by auto
    from varnum_inv_varnum [OF v] have "1 \<le> snd (snd (inv_varnum (last ?ts)))"
      "snd (snd (inv_varnum (last ?ts))) \<le> 9"
      by (auto split: prod.splits)
    moreover have "decode_grid val r0 c0 = snd (snd (inv_varnum (last ?ts)))"
      unfolding decode_grid_fold fold_decode_step Let_def using False by (rule if_not_P)
    ultimately show ?thesis by simp
  qed
qed

lemma print_decoded_grid:
  "print_grid (decode_grid val) =
    concat (map (\<lambda>r. map (\<lambda>c. digit_char (nat (decode_grid val r c))) [0..8] @ [newline]) [0..8])"
proof -
  have "show_int (decode_grid val r c) = [digit_char (nat (decode_grid val r c))]" for r c
    using decode_grid_range [of val r c] by (simp add: show_int_digit)
  then show ?thesis
    by (simp add: print_grid_closed)
qed

section \<open>The input shapes of the decoder\<close>

text \<open>
  C4, as stated, fails: a free-form answer with the verdict and the literals on one line
  is rejected. The decoder compares the whole first line with \<open>SAT\<close>, exits with
  status 1 and prints no grid.
\<close>

theorem free_form_rejected_counterexample:
  "sat2sud (''SAT 1 0'' @ [newline]) =
     Some \<lparr>exit_code = 1, out = [],
       err = ''Error: expected SAT or UNSAT on first line, got: SAT 1 0'' @ [newline]\<rparr>"
  by code_simp

text \<open>
  C4, amended. The decoder accepts the two-line shape only. When the first line is
  exactly \<open>SAT\<close> and a second line follows whose integers do not include \<open>INT_MIN\<close>, it
  exits with status 0 and prints the grid decoded from the integers of that line; on the
  line \<open>SAT\<close> followed by a line of nonzero literals, each in the range of \<open>int\<close> and
  above \<open>INT_MIN\<close>, separated by blanks and terminated by \<open>0\<close>, these integers are exactly
  the literals. On every input whose first line is not exactly \<open>SAT\<close> (a free-form stream
  among them) it exits with status 1 and prints nothing. What happens when \<open>INT_MIN\<close> is
  among the integers is left open: \<open>-x\<close> overflows there.
\<close>

theorem two_line_shape_only:
  "(getline inp = Some (''SAT'', rest) \<and> getline rest = Some (line, rest') \<and>
      INT_MIN \<notin> set (read_ints line []) \<longrightarrow>
      (\<exists>val. set_valuation (read_ints line []) (replicate 730 0) = Some val \<and>
        sat2sud inp = Some \<lparr>exit_code = 0, out = print_grid (decode_grid val), err = []\<rparr>)) \<and>
   ((\<forall>l\<in>set lits. l \<noteq> 0 \<and> INT_MIN < l \<and> l \<le> INT_MAX) \<longrightarrow>
      (\<exists>val. set_valuation lits (replicate 730 0) = Some val \<and>
        sat2sud (sat_output lits)
          = Some \<lparr>exit_code = 0, out = print_grid (decode_grid val), err = []\<rparr>)) \<and>
   (getline inp = Some (first, rest) \<and> first \<noteq> ''SAT'' \<longrightarrow>
      (\<exists>r. sat2sud inp = Some r \<and> exit_code r = 1 \<and> out r = []))"
proof (intro conjI impI)
  assume a: "getline inp = Some (''SAT'', rest) \<and> getline rest = Some (line, rest') \<and>
      INT_MIN \<notin> set (read_ints line [])"
  then have g: "getline inp = Some (''SAT'', rest)" "getline rest = Some (line, rest')"
    and "INT_MIN \<notin> set (read_ints line [])"
    by simp_all
  from set_valuation_defined [OF this(3)] obtain val where
    v: "set_valuation (read_ints line []) (replicate 730 0) = Some val" by blast
  with sat2sud_two_lines [OF g]
  show "\<exists>val. set_valuation (read_ints line []) (replicate 730 0) = Some val \<and>
        sat2sud inp = Some \<lparr>exit_code = 0, out = print_grid (decode_grid val), err = []\<rparr>"
    by simp
next
  assume a: "\<forall>l\<in>set lits. l \<noteq> 0 \<and> INT_MIN < l \<and> l \<le> INT_MAX"
  then have "INT_MIN \<notin> set lits" by auto
  from set_valuation_defined [OF this] obtain val where
    v: "set_valuation lits (replicate 730 0) = Some val" by blast
  with sat2sud_sat_output [OF a]
  show "\<exists>val. set_valuation lits (replicate 730 0) = Some val \<and>
        sat2sud (sat_output lits)
          = Some \<lparr>exit_code = 0, out = print_grid (decode_grid val), err = []\<rparr>"
    by simp
next
  assume "getline inp = Some (first, rest) \<and> first \<noteq> ''SAT''"
  then show "\<exists>r. sat2sud inp = Some r \<and> exit_code r = 1 \<and> out r = []"
    using sat2sud_other_first_line by blast
qed

theorem two_line_shape_only_witness:
  "read_ints ''+1   -2 0 7'' [] = [1, - 2] \<and>
   (\<exists>val. set_valuation [1, - 2] (replicate 730 0) = Some val \<and>
      sat2sud (''SAT'' @ [newline] @ ''+1   -2 0 7'' @ [newline])
        = Some \<lparr>exit_code = 0, out = print_grid (decode_grid val), err = []\<rparr> \<and>
      sat2sud (''SAT'' @ [newline] @ ''1 -2 0'' @ [newline])
        = Some \<lparr>exit_code = 0, out = print_grid (decode_grid val), err = []\<rparr>) \<and>
   (\<exists>r. sat2sud (''s SATISFIABLE'' @ [newline] @ ''v 1 -2 0'' @ [newline]) = Some r \<and>
      exit_code r = 1 \<and> out r = [])"
proof -
  let ?free = "''s SATISFIABLE'' @ [newline] @ ''v 1 -2 0'' @ [newline]"
  let ?two = "''SAT'' @ [newline] @ ''+1   -2 0 7'' @ [newline]"
  have r: "read_ints ''+1   -2 0 7'' [] = [1, - 2]"
    by code_simp
  have h0: "getline ?two = Some (''SAT'', ''+1   -2 0 7'' @ [newline]) \<and>
      getline (''+1   -2 0 7'' @ [newline]) = Some (''+1   -2 0 7'', []) \<and>
      INT_MIN \<notin> set (read_ints ''+1   -2 0 7'' [])"
    unfolding r by (simp add: getline_def newline_def INT_MIN_def)
  have h1: "\<forall>l\<in>set [1, - 2 :: int]. l \<noteq> 0 \<and> INT_MIN < l \<and> l \<le> INT_MAX"
    by (simp add: INT_MIN_def INT_MAX_def)
  have h2: "getline ?free = Some (''s SATISFIABLE'', ''v 1 -2 0'' @ [newline]) \<and>
      ''s SATISFIABLE'' \<noteq> ''SAT''"
    by (simp add: getline_def newline_def)
  have e: "sat_output [1, - 2] = ''SAT'' @ [newline] @ ''1 -2 0'' @ [newline]"
    by code_simp
  from two_line_shape_only [where inp = ?two and line = "''+1   -2 0 7''" and rest' = "[]"
      and rest = "''+1   -2 0 7'' @ [newline]", THEN conjunct1] h0
  have a: "\<exists>val. set_valuation [1, - 2] (replicate 730 0) = Some val \<and>
      sat2sud ?two = Some \<lparr>exit_code = 0, out = print_grid (decode_grid val), err = []\<rparr>"
    unfolding r by blast
  from two_line_shape_only [where lits = "[1, - 2]", THEN conjunct2, THEN conjunct1] h1
  have b: "\<exists>val. set_valuation [1, - 2] (replicate 730 0) = Some val \<and>
      sat2sud (''SAT'' @ [newline] @ ''1 -2 0'' @ [newline])
        = Some \<lparr>exit_code = 0, out = print_grid (decode_grid val), err = []\<rparr>"
    unfolding e by blast
  from two_line_shape_only [where inp = ?free and first = "''s SATISFIABLE''"
      and rest = "''v 1 -2 0'' @ [newline]", THEN conjunct2, THEN conjunct2] h2
  have c: "\<exists>r. sat2sud ?free = Some r \<and> exit_code r = 1 \<and> out r = []"
    by blast
  from a b c r show ?thesis
    by (metis option.inject)
qed

section \<open>Conflicting and missing assignments\<close>

text \<open>
  C5, as stated, fails: on an answer that makes the variables 1 and 2 true (cell (1,1)
  with the digits 1 and 2) and no other, the decoder reports nothing, exits with status 0
  and prints a grid: the first cell holds 2 and the 80 cells without a true variable
  hold 0.
\<close>

theorem silent_overwrite_counterexample:
  "sat2sud (''SAT'' @ [newline] @ ''1 2 0'' @ [newline]) =
     Some \<lparr>exit_code = 0,
       out = ''200000000'' @ [newline] @ ''000000000'' @ [newline] @ ''000000000'' @ [newline]
         @ ''000000000'' @ [newline] @ ''000000000'' @ [newline] @ ''000000000'' @ [newline]
         @ ''000000000'' @ [newline] @ ''000000000'' @ [newline] @ ''000000000'' @ [newline],
       err = []\<rparr>"
  by code_simp

text \<open>
  C5, amended. On every answer whose first line is \<open>SAT\<close> and whose second line holds
  no integer \<open>INT_MIN\<close>, the decoder reports no error: the valuation loop completes, the
  decoder exits with status 0 and prints nine lines of nine digits. A cell none of whose
  nine variables is true is printed as 0; a cell with one or several true variables
  holds the largest of their digits, the later variable overwriting the earlier. What
  happens when \<open>INT_MIN\<close> is among the integers is left open: \<open>-x\<close> overflows there.
\<close>

theorem no_malformed_assignment_error:
  assumes "getline inp = Some (''SAT'', rest)" "getline rest = Some (line, rest')"
    and "INT_MIN \<notin> set (read_ints line [])"
  shows "\<exists>val. set_valuation (read_ints line []) (replicate 730 0) = Some val \<and>
    sat2sud inp = Some \<lparr>exit_code = 0, out = print_grid (decode_grid val), err = []\<rparr> \<and>
    print_grid (decode_grid val) =
      concat (map (\<lambda>r. map (\<lambda>c. digit_char (nat (decode_grid val r c))) [0..8] @ [newline]) [0..8]) \<and>
    (\<forall>r\<in>{1..9}. \<forall>c\<in>{1..9}.
      ((\<forall>d\<in>{1..9}. val ! nat (varnum r c d) \<noteq> 1) \<longrightarrow> decode_grid val (r - 1) (c - 1) = 0) \<and>
      (\<forall>d\<in>{1..9}. val ! nat (varnum r c d) = 1 \<and> (\<forall>d'\<in>{d + 1..9}. val ! nat (varnum r c d') \<noteq> 1)
          \<longrightarrow> decode_grid val (r - 1) (c - 1) = d))"
proof -
  from set_valuation_defined [OF assms(3)] obtain val where
    v: "set_valuation (read_ints line []) (replicate 730 0) = Some val" by blast
  have "sat2sud inp = Some \<lparr>exit_code = 0, out = print_grid (decode_grid val), err = []\<rparr>"
    by (simp add: sat2sud_two_lines [OF assms(1,2)] v)
  moreover have "print_grid (decode_grid val) =
      concat (map (\<lambda>r. map (\<lambda>c. digit_char (nat (decode_grid val r c))) [0..8] @ [newline]) [0..8])"
    by (rule print_decoded_grid)
  moreover have "\<forall>r\<in>{1..9}. \<forall>c\<in>{1..9}.
      ((\<forall>d\<in>{1..9}. val ! nat (varnum r c d) \<noteq> 1) \<longrightarrow> decode_grid val (r - 1) (c - 1) = 0) \<and>
      (\<forall>d\<in>{1..9}. val ! nat (varnum r c d) = 1 \<and> (\<forall>d'\<in>{d + 1..9}. val ! nat (varnum r c d') \<noteq> 1)
          \<longrightarrow> decode_grid val (r - 1) (c - 1) = d)"
  proof (intro conjI ballI impI)
    fix r c :: int
    assume "r \<in> {1..9}" "c \<in> {1..9}" "\<forall>d\<in>{1..9}. val ! nat (varnum r c d) \<noteq> 1"
    then show "decode_grid val (r - 1) (c - 1) = 0"
      by (rule decode_grid_empty_cell)
  next
    fix r c d :: int
    assume "r \<in> {1..9}" "c \<in> {1..9}" "d \<in> {1..9}"
      and "val ! nat (varnum r c d) = 1 \<and> (\<forall>d'\<in>{d + 1..9}. val ! nat (varnum r c d') \<noteq> 1)"
    then show "decode_grid val (r - 1) (c - 1) = d"
      by (intro decode_grid_largest_digit) simp_all
  qed
  ultimately show ?thesis
    using v by blast
qed

theorem no_malformed_assignment_error_witness:
  "read_ints ''1 2 0'' [] = [1, 2] \<and> INT_MIN \<notin> set [1, 2] \<and>
   (\<exists>val. sat2sud (''SAT'' @ [newline] @ ''1 2 0'' @ [newline])
     = Some \<lparr>exit_code = 0, out = print_grid (decode_grid val), err = []\<rparr> \<and>
   val ! 1 = 1 \<and> val ! 2 = 1 \<and> decode_grid val 0 0 = 2 \<and> decode_grid val 0 1 = 0)"
proof -
  let ?inp = "''SAT'' @ [newline] @ ''1 2 0'' @ [newline]"
  define val0 :: "int list" where "val0 = replicate 730 0"
  have l: "length val0 = 730" and z: "\<And>i. i < 730 \<Longrightarrow> val0 ! i = 0"
    by (simp_all add: val0_def)
  have g1: "getline ?inp = Some (''SAT'', ''1 2 0'' @ [newline])"
    by (simp add: getline_def newline_def)
  have g2: "getline (''1 2 0'' @ [newline]) = Some (''1 2 0'', [])"
    by (simp add: getline_def newline_def)
  have ri: "read_ints ''1 2 0'' [] = [1, 2]"
    by code_simp
  have h: "INT_MIN \<notin> set (read_ints ''1 2 0'' [])"
    unfolding ri by (simp add: INT_MIN_def)
  from no_malformed_assignment_error [OF g1 g2 h] obtain val where
    v: "set_valuation (read_ints ''1 2 0'' []) (replicate 730 0) = Some val"
    and o: "sat2sud ?inp = Some \<lparr>exit_code = 0, out = print_grid (decode_grid val), err = []\<rparr>"
    and cells: "\<forall>r\<in>{1..9}. \<forall>c\<in>{1..9}.
      ((\<forall>d\<in>{1..9}. val ! nat (varnum r c d) \<noteq> 1) \<longrightarrow> decode_grid val (r - 1) (c - 1) = 0) \<and>
      (\<forall>d\<in>{1..9}. val ! nat (varnum r c d) = 1 \<and> (\<forall>d'\<in>{d + 1..9}. val ! nat (varnum r c d') \<noteq> 1)
          \<longrightarrow> decode_grid val (r - 1) (c - 1) = d)"
    by blast
  from v have val: "val = val0[1 := 1, 2 := 1]"
    unfolding ri val0_def [symmetric] by (simp add: NUM_VARS_729)
  have nth: "val ! i = (if i = 1 \<or> i = 2 then 1 else 0)" if "i < 730" for i
    using that unfolding val by (auto simp: nth_list_update l z)
  have c11: "val ! nat (varnum 1 1 2) = 1 \<and> (\<forall>d'\<in>{2 + 1..9}. val ! nat (varnum 1 1 d') \<noteq> 1)"
    by (auto simp: varnum_def nth nat_less_iff nat_eq_iff)
  have c12: "\<forall>d\<in>{1..9}. val ! nat (varnum 1 2 d) \<noteq> 1"
    by (auto simp: varnum_def nth nat_less_iff nat_eq_iff)
  have i: "(1::int) \<in> {1..9}" "(2::int) \<in> {1..9}" by simp_all
  from cells i c11 have "decode_grid val (1 - 1) (1 - 1) = 2" by blast
  then have a: "decode_grid val 0 0 = 2" by simp
  from cells i c12 have "decode_grid val (1 - 1) (2 - 1) = 0" by blast
  then have b: "decode_grid val 0 1 = 0" by simp
  have "val ! 1 = 1" "val ! 2 = 1"
    using nth [of 1] nth [of 2] by simp_all
  moreover have "INT_MIN \<notin> set [1, 2]" by (simp add: INT_MIN_def)
  ultimately show ?thesis
    using o a b ri by blast
qed

section \<open>Literals out of range\<close>

text \<open>
  C8 fails on the code for a literal token that does not fit an \<open>int\<close>: the extraction
  fails there and ends the reading loop, so the token is not skipped like the
  out-of-range literal 730 is, and the literals after it are lost. With the token
  \<open>3000000000\<close> in front, the literal 5 no longer reaches the grid.
\<close>

theorem oversized_literal_drops_later_literals:
  "sat2sud (''SAT'' @ [newline] @ ''3000000000 5 0'' @ [newline]) =
     Some \<lparr>exit_code = 0,
       out = ''000000000'' @ [newline] @ ''000000000'' @ [newline] @ ''000000000'' @ [newline]
         @ ''000000000'' @ [newline] @ ''000000000'' @ [newline] @ ''000000000'' @ [newline]
         @ ''000000000'' @ [newline] @ ''000000000'' @ [newline] @ ''000000000'' @ [newline],
       err = []\<rparr> \<and>
   sat2sud (''SAT'' @ [newline] @ ''5 0'' @ [newline]) =
     Some \<lparr>exit_code = 0,
       out = ''500000000'' @ [newline] @ ''000000000'' @ [newline] @ ''000000000'' @ [newline]
         @ ''000000000'' @ [newline] @ ''000000000'' @ [newline] @ ''000000000'' @ [newline]
         @ ''000000000'' @ [newline] @ ''000000000'' @ [newline] @ ''000000000'' @ [newline],
       err = []\<rparr>"
proof
  have g1: "getline (''SAT'' @ [newline] @ ''3000000000 5 0'' @ [newline])
      = Some (''SAT'', ''3000000000 5 0'' @ [newline])"
    by (simp add: getline_def newline_def)
  have g2: "getline (''3000000000 5 0'' @ [newline]) = Some (''3000000000 5 0'', [])"
    by (simp add: getline_def newline_def)
  have "extract_int ''3000000000 5 0'' = None"
    by (simp add: extract_int_def Let_def isspace_def isdigit_def digits_value_def INT_MAX_def)
  then have r: "read_ints ''3000000000 5 0'' [] = []"
    by (subst read_ints.simps) simp
  have "print_grid (decode_grid (replicate 730 0)) =
      ''000000000'' @ [newline] @ ''000000000'' @ [newline] @ ''000000000'' @ [newline]
         @ ''000000000'' @ [newline] @ ''000000000'' @ [newline] @ ''000000000'' @ [newline]
         @ ''000000000'' @ [newline] @ ''000000000'' @ [newline] @ ''000000000'' @ [newline]"
    by code_simp
  then show "sat2sud (''SAT'' @ [newline] @ ''3000000000 5 0'' @ [newline]) =
     Some \<lparr>exit_code = 0,
       out = ''000000000'' @ [newline] @ ''000000000'' @ [newline] @ ''000000000'' @ [newline]
         @ ''000000000'' @ [newline] @ ''000000000'' @ [newline] @ ''000000000'' @ [newline]
         @ ''000000000'' @ [newline] @ ''000000000'' @ [newline] @ ''000000000'' @ [newline],
       err = []\<rparr>"
    by (simp only: sat2sud_two_lines [OF g1 g2] r set_valuation.simps(1) option.case)
  show "sat2sud (''SAT'' @ [newline] @ ''5 0'' @ [newline]) =
     Some \<lparr>exit_code = 0,
       out = ''500000000'' @ [newline] @ ''000000000'' @ [newline] @ ''000000000'' @ [newline]
         @ ''000000000'' @ [newline] @ ''000000000'' @ [newline] @ ''000000000'' @ [newline]
         @ ''000000000'' @ [newline] @ ''000000000'' @ [newline] @ ''000000000'' @ [newline],
       err = []\<rparr>"
    by code_simp
qed

text \<open>
  The guards of the valuation loop do skip an out-of-range literal that fits an \<open>int\<close>
  (above \<open>INT_MIN\<close>): the valuation stays as it is, the decoder's result with the literal
  anywhere in the assignment line is its result without it, and that result is a grid
  with exit status 0 and no error message.
\<close>

lemma out_of_range_literal_skipped:
  assumes "\<forall>l\<in>set (xs @ ys). l \<noteq> 0 \<and> INT_MIN < l \<and> l \<le> INT_MAX"
    and "INT_MIN < x" "x \<le> INT_MAX" "x < - 729 \<or> 729 < x"
  shows "set_valuation [x] val = Some val \<and>
    sat2sud (sat_output (xs @ x # ys)) = sat2sud (sat_output (xs @ ys)) \<and>
    (\<exists>r. sat2sud (sat_output (xs @ x # ys)) = Some r \<and> exit_code r = 0 \<and> err r = [])"
proof -
  have x: "x \<noteq> INT_MIN" "x < - 729 \<or> x = 0 \<or> 729 < x"
    using assms(2,4) by auto
  have skip: "set_valuation (xs @ x # ys) v = set_valuation (xs @ ys) v" for v
    by (simp only: set_valuation_append [of xs] set_valuation_skip [OF x])
  have l: "\<forall>l\<in>set (xs @ x # ys). l \<noteq> 0 \<and> INT_MIN < l \<and> l \<le> INT_MAX"
    using assms by auto
  have e: "sat2sud (sat_output (xs @ x # ys)) = sat2sud (sat_output (xs @ ys))"
    by (simp only: sat2sud_sat_output [OF l] sat2sud_sat_output [OF assms(1)] skip)
  have "INT_MIN \<notin> set (xs @ ys)" using assms(1) by auto
  from set_valuation_defined [OF this] obtain v where
    "set_valuation (xs @ ys) (replicate 730 0) = Some v" by blast
  then have "\<exists>r. sat2sud (sat_output (xs @ ys)) = Some r \<and> exit_code r = 0 \<and> err r = []"
    by (simp add: sat2sud_sat_output [OF assms(1)])
  moreover have "set_valuation [x] val = Some val"
    by (simp only: set_valuation_skip [OF x] set_valuation.simps(1))
  ultimately show ?thesis
    using e by (simp only: simp_thms)
qed

lemma out_of_range_literal_skipped_example:
  "set_valuation [730] (replicate 730 0) = Some (replicate 730 0) \<and>
   sat2sud (''SAT'' @ [newline] @ ''5 730 -12 0'' @ [newline])
     = sat2sud (''SAT'' @ [newline] @ ''5 -12 0'' @ [newline]) \<and>
   (\<exists>r. sat2sud (''SAT'' @ [newline] @ ''5 730 -12 0'' @ [newline]) = Some r \<and>
      exit_code r = 0 \<and> err r = [])"
proof -
  have h: "\<forall>l\<in>set ([5] @ [- 12 :: int]). l \<noteq> 0 \<and> INT_MIN < l \<and> l \<le> INT_MAX"
    "INT_MIN < 730" "730 \<le> INT_MAX" "(730::int) < - 729 \<or> 729 < (730::int)"
    by (simp_all add: INT_MIN_def INT_MAX_def)
  have e: "sat_output ([5] @ 730 # [- 12]) = ''SAT'' @ [newline] @ ''5 730 -12 0'' @ [newline]"
    "sat_output ([5] @ [- 12]) = ''SAT'' @ [newline] @ ''5 -12 0'' @ [newline]"
    by code_simp+
  from out_of_range_literal_skipped [OF h, of "replicate 730 0"] show ?thesis
    unfolding e .
qed

section \<open>Reordering the literals\<close>

text \<open>
  C9, as stated, fails when a variable occurs with both signs: the later literal wins, so
  the order matters. The lines \<open>1 -1 0\<close> and \<open>-1 1 0\<close> hold the same literal tokens and
  decode to different grids.
\<close>

theorem reordering_counterexample:
  "mset [1, - 1 :: int] = mset [- 1, 1] \<and>
   sat2sud (''SAT'' @ [newline] @ ''1 -1 0'' @ [newline]) =
     Some \<lparr>exit_code = 0,
       out = ''000000000'' @ [newline] @ ''000000000'' @ [newline] @ ''000000000'' @ [newline]
         @ ''000000000'' @ [newline] @ ''000000000'' @ [newline] @ ''000000000'' @ [newline]
         @ ''000000000'' @ [newline] @ ''000000000'' @ [newline] @ ''000000000'' @ [newline],
       err = []\<rparr> \<and>
   sat2sud (''SAT'' @ [newline] @ ''-1 1 0'' @ [newline]) =
     Some \<lparr>exit_code = 0,
       out = ''100000000'' @ [newline] @ ''000000000'' @ [newline] @ ''000000000'' @ [newline]
         @ ''000000000'' @ [newline] @ ''000000000'' @ [newline] @ ''000000000'' @ [newline]
         @ ''000000000'' @ [newline] @ ''000000000'' @ [newline] @ ''000000000'' @ [newline],
       err = []\<rparr>"
proof (intro conjI)
  show "mset [1, - 1 :: int] = mset [- 1, 1]" by simp
  show "sat2sud (''SAT'' @ [newline] @ ''1 -1 0'' @ [newline]) =
     Some \<lparr>exit_code = 0,
       out = ''000000000'' @ [newline] @ ''000000000'' @ [newline] @ ''000000000'' @ [newline]
         @ ''000000000'' @ [newline] @ ''000000000'' @ [newline] @ ''000000000'' @ [newline]
         @ ''000000000'' @ [newline] @ ''000000000'' @ [newline] @ ''000000000'' @ [newline],
       err = []\<rparr>"
    by code_simp
  show "sat2sud (''SAT'' @ [newline] @ ''-1 1 0'' @ [newline]) =
     Some \<lparr>exit_code = 0,
       out = ''100000000'' @ [newline] @ ''000000000'' @ [newline] @ ''000000000'' @ [newline]
         @ ''000000000'' @ [newline] @ ''000000000'' @ [newline] @ ''000000000'' @ [newline]
         @ ''000000000'' @ [newline] @ ''000000000'' @ [newline] @ ''000000000'' @ [newline],
       err = []\<rparr>"
    by code_simp
qed

text \<open>
  C9, amended. For an assignment line of nonzero literals, each in the range of \<open>int\<close>
  and above \<open>INT_MIN\<close>, in which no variable of \<open>[1,729]\<close> occurs with both signs, every
  reordering of the literals gives the same valuation, and the decoder prints the same
  grid for both lines. Lines holding \<open>INT_MIN\<close> are left open: \<open>-x\<close> overflows there.
\<close>

theorem decode_invariant_under_reordering:
  assumes "mset xs = mset ys"
    and "\<forall>l\<in>set xs. l \<noteq> 0 \<and> INT_MIN < l \<and> l \<le> INT_MAX"
    and "\<forall>v\<in>{1..729}. \<not> (v \<in> set xs \<and> - v \<in> set xs)"
  shows "sat2sud (sat_output xs) = sat2sud (sat_output ys) \<and>
    (\<exists>val. set_valuation xs (replicate 730 0) = Some val \<and>
       set_valuation ys (replicate 730 0) = Some val \<and>
       sat2sud (sat_output ys)
         = Some \<lparr>exit_code = 0, out = print_grid (decode_grid val), err = []\<rparr>)"
proof -
  have eq: "set xs = set ys" using assms(1) by (metis mset_eq_setD)
  with assms(2) have l: "\<forall>l\<in>set ys. l \<noteq> 0 \<and> INT_MIN < l \<and> l \<le> INT_MAX" by simp
  have p: "set_valuation xs (replicate 730 0) = set_valuation ys (replicate 730 0)"
    by (rule set_valuation_perm [OF assms(1,3)]) simp
  have "INT_MIN \<notin> set xs" using assms(2) by auto
  from set_valuation_defined [OF this] obtain val where
    v: "set_valuation xs (replicate 730 0) = Some val" by blast
  have "sat2sud (sat_output xs) = sat2sud (sat_output ys)"
    by (simp only: sat2sud_sat_output [OF assms(2)] sat2sud_sat_output [OF l] p)
  moreover have "sat2sud (sat_output ys)
      = Some \<lparr>exit_code = 0, out = print_grid (decode_grid val), err = []\<rparr>"
    using v by (simp only: sat2sud_sat_output [OF l] p [symmetric] option.case)
  ultimately show ?thesis
    using v p by auto
qed

theorem decode_invariant_under_reordering_witness:
  "mset [1, - 12, 83 :: int] = mset [83, 1, - 12] \<and>
   sat2sud (''SAT'' @ [newline] @ ''1 -12 83 0'' @ [newline])
     = sat2sud (''SAT'' @ [newline] @ ''83 1 -12 0'' @ [newline]) \<and>
   (\<exists>val. set_valuation [1, - 12, 83] (replicate 730 0) = Some val \<and>
      set_valuation [83, 1, - 12] (replicate 730 0) = Some val \<and>
      sat2sud (''SAT'' @ [newline] @ ''83 1 -12 0'' @ [newline])
        = Some \<lparr>exit_code = 0, out = print_grid (decode_grid val), err = []\<rparr>)"
proof -
  have h1: "mset [1, - 12, 83 :: int] = mset [83, 1, - 12]" by simp
  have h2: "\<forall>l\<in>set [1, - 12, 83 :: int]. l \<noteq> 0 \<and> INT_MIN < l \<and> l \<le> INT_MAX"
    by (simp add: INT_MIN_def INT_MAX_def)
  have h3: "\<forall>v\<in>{1..729}. \<not> (v \<in> set [1, - 12, 83 :: int] \<and> - v \<in> set [1, - 12, 83 :: int])"
    by auto
  have e: "sat_output [1, - 12, 83] = ''SAT'' @ [newline] @ ''1 -12 83 0'' @ [newline]"
    "sat_output [83, 1, - 12] = ''SAT'' @ [newline] @ ''83 1 -12 0'' @ [newline]"
    by code_simp+
  from decode_invariant_under_reordering [OF h1 h2 h3] h1 show ?thesis
    unfolding e by blast
qed

end
